theory Spec2Isabelle
  imports Complex_Main
begin

section \<open>The prize picker handler (src/picker.js)\<close>

text \<open>
  The repository is one request handler, \<^verbatim>\<open>module.exports = (req, res) => ...\<close>.
  It reads \<^verbatim>\<open>req.url\<close>, draws one number with \<^verbatim>\<open>Math.random()\<close> and answers
  with a status and a JSON object.  The model passes the URL and the random draw
  as arguments and returns the response as a value.

  Modelling conventions.
  \<^item> A JavaScript string is a list of code units.  \<^typ>\<open>char\<close> has 256 values, so the
    model covers the strings whose code units lie below 256.  The separators
    \<^verbatim>\<open>? / _\<close>, the signs and the digits are in that range; of the white space
    that \<^verbatim>\<open>parseInt\<close> skips, the code units above 255 (such as U+2028 and U+FEFF)
    cannot occur in a modelled string.
  \<^item> A JavaScript Number is an IEEE 754 double: \<^verbatim>\<open>NaN\<close>, the two infinities, or
    a finite value, kept as the real number it denotes.  Every arithmetic result
    is rounded to the nearest double, ties to the even significand, and becomes
    an infinity on overflow.  The two zeros are not told apart: the handler only
    adds, multiplies and compares, and these do not distinguish them.
\<close>

subsection \<open>String.prototype.split with a one-character separator\<close>

text \<open>
  \<^verbatim>\<open>s.split(c)\<close> cuts \<^verbatim>\<open>s\<close> at every occurrence of \<^verbatim>\<open>c\<close>; the result always has
  at least one element (\<^verbatim>\<open>"".split("/")\<close> is \<^verbatim>\<open>[""]\<close>).
\<close>

fun split_js :: "char \<Rightarrow> string \<Rightarrow> string list" where
  "split_js c [] = [[]]"
| "split_js c (x # xs) =
     (if x = c then [] # split_js c xs
      else (case split_js c xs of
              [] \<Rightarrow> [[x]]
            | p # ps \<Rightarrow> (x # p) # ps))"

subsection \<open>Numbers\<close>

text \<open>
  A Number is \<open>NaN\<close>, a finite double \<open>Fin x\<close> (with \<open>x\<close> the real it denotes),
  \<open>Infinity\<close> (\<open>PInf\<close>) or \<open>-Infinity\<close> (\<open>NInf\<close>).
  \<open>expo x\<close> is the exponent of the binade of a positive \<open>x\<close>, not below \<open>-1022\<close>
  (where the subnormal numbers start) and not above 1023; the doubles of that
  binade are the multiples of \<open>2 powi (expo x - 52)\<close>.  \<open>roundPos\<close> rounds a
  positive real to the nearest of them, ties to the even multiple, and \<open>fl\<close>
  extends it to all reals.
\<close>

datatype number = NaN | Fin real | PInf | NInf

fun expo_from :: "nat \<Rightarrow> real \<Rightarrow> int" where
  "expo_from 0 x = - 1022"
| "expo_from (Suc n) x =
     (if 2 powi (int n - 1021) \<le> x then int n - 1021 else expo_from n x)"

definition expo :: "real \<Rightarrow> int" where
  "expo x = expo_from 2045 x"

definition roundHalfEven :: "real \<Rightarrow> int" where
  "roundHalfEven q =
     (let f = \<lfloor>q\<rfloor>; d = q - of_int f
      in if d < 1 / 2 then f
         else if 1 / 2 < d then f + 1
         else if even f then f else f + 1)"

definition roundPos :: "real \<Rightarrow> number" where
  "roundPos x =
     (let u = 2 powi (expo x - 52);
          y = of_int (roundHalfEven (x / u)) * u
      in if 2 powi 1024 \<le> y then PInf else Fin y)"

definition fl :: "real \<Rightarrow> number" where
  "fl x = (if x = 0 then Fin 0
           else if 0 < x then roundPos x
           else (case roundPos (- x) of PInf \<Rightarrow> NInf | Fin y \<Rightarrow> Fin (- y) | n \<Rightarrow> n))"

text \<open>
  The operators the handler uses: \<^verbatim>\<open>+\<close> (as \<^verbatim>\<open>+=\<close>), \<^verbatim>\<open>*\<close>, \<^verbatim>\<open><\<close>, \<^verbatim>\<open><=\<close> and
  \<^verbatim>\<open>isNaN\<close>.  A comparison with \<^verbatim>\<open>NaN\<close> is false.
\<close>

fun num_add :: "number \<Rightarrow> number \<Rightarrow> number" where
  "num_add NaN _ = NaN"
| "num_add _ NaN = NaN"
| "num_add PInf NInf = NaN"
| "num_add NInf PInf = NaN"
| "num_add PInf _ = PInf"
| "num_add _ PInf = PInf"
| "num_add NInf _ = NInf"
| "num_add _ NInf = NInf"
| "num_add (Fin a) (Fin b) = fl (a + b)"

fun num_mul :: "number \<Rightarrow> number \<Rightarrow> number" where
  "num_mul NaN _ = NaN"
| "num_mul _ NaN = NaN"
| "num_mul (Fin a) (Fin b) = fl (a * b)"
| "num_mul (Fin a) PInf = (if a = 0 then NaN else if 0 < a then PInf else NInf)"
| "num_mul (Fin a) NInf = (if a = 0 then NaN else if 0 < a then NInf else PInf)"
| "num_mul PInf (Fin b) = (if b = 0 then NaN else if 0 < b then PInf else NInf)"
| "num_mul NInf (Fin b) = (if b = 0 then NaN else if 0 < b then NInf else PInf)"
| "num_mul PInf PInf = PInf"
| "num_mul PInf NInf = NInf"
| "num_mul NInf PInf = NInf"
| "num_mul NInf NInf = PInf"

fun num_less :: "number \<Rightarrow> number \<Rightarrow> bool" where
  "num_less NaN _ = False"
| "num_less _ NaN = False"
| "num_less (Fin a) (Fin b) = (a < b)"
| "num_less _ NInf = False"
| "num_less NInf _ = True"
| "num_less PInf _ = False"
| "num_less _ PInf = True"

fun num_le :: "number \<Rightarrow> number \<Rightarrow> bool" where
  "num_le NaN _ = False"
| "num_le _ NaN = False"
| "num_le (Fin a) (Fin b) = (a \<le> b)"
| "num_le NInf _ = True"
| "num_le _ PInf = True"
| "num_le _ _ = False"

fun isNaN :: "number \<Rightarrow> bool" where
  "isNaN NaN = True"
| "isNaN _ = False"

subsection \<open>parseInt(string, 10)\<close>

text \<open>
  ECMAScript \<^verbatim>\<open>parseInt\<close> with radix 10: skip leading white space, read an optional
  sign, take the longest prefix of decimal digits; no digit gives \<^verbatim>\<open>NaN\<close>.
  With the radix given as 10 no \<^verbatim>\<open>0x\<close> prefix is recognised.  The white space
  code units below 256 are TAB, LF, VT, FF, CR, SP and NBSP.  The result is the
  double nearest the integer the digits denote, as V8 computes it (ECMAScript
  lets an implementation read the digits after the 20th significant one as
  zeros).
\<close>

definition isWhiteSpace :: "char \<Rightarrow> bool" where
  "isWhiteSpace c \<longleftrightarrow> (of_char c :: nat) \<in> {9, 10, 11, 12, 13, 32, 160}"

definition isDigit :: "char \<Rightarrow> bool" where
  "isDigit c \<longleftrightarrow> 48 \<le> (of_char c :: nat) \<and> (of_char c :: nat) \<le> 57"

definition digitVal :: "char \<Rightarrow> int" where
  "digitVal c = int (of_char c) - 48"

definition mathInt :: "string \<Rightarrow> int" where
  "mathInt Z = foldl (\<lambda>acc c. 10 * acc + digitVal c) 0 Z"

definition parseInt10 :: "string \<Rightarrow> number" where
  "parseInt10 inputString =
     (let S = dropWhile isWhiteSpace inputString;
          sign = (if S \<noteq> [] \<and> hd S = CHR ''-'' then - 1 else 1);
          S' = (if S \<noteq> [] \<and> (hd S = CHR ''+'' \<or> hd S = CHR ''-'') then tl S else S);
          Z = takeWhile isDigit S'
      in if Z = [] then NaN else fl (of_int (sign * mathInt Z)))"

subsection \<open>Data\<close>

record prize =
  name :: string
  weight :: number

datatype json_value = JNull | JString string

record response =
  status :: nat
  body :: "(string \<times> json_value) list"

datatype parse_error = NoPrizesProvided | InvalidFormat

subsection \<open>Lines 17--20: path and segments\<close>

text \<open>
  \<^verbatim>\<open>req.url.split('?')[0]\<close>: the split is never empty, so element 0 exists and
  \<^const>\<open>hd\<close> reads it.  The filter keeps the segments that are not empty and are
  neither \<^verbatim>\<open>api\<close> nor \<^verbatim>\<open>picker\<close>.
\<close>

definition path_of :: "string \<Rightarrow> string" where
  "path_of url = hd (split_js CHR ''?'' url)"

definition segments_of :: "string \<Rightarrow> string list" where
  "segments_of url =
     filter (\<lambda>s. length s > 0 \<and> s \<noteq> ''api'' \<and> s \<noteq> ''picker'')
       (split_js CHR ''/'' (path_of url))"

subsection \<open>Lines 30--53: the parse loop\<close>

text \<open>
  The body of the loop for one segment: \<^const>\<open>None\<close> when the body sets
  \<^verbatim>\<open>isValid = false\<close> and breaks, the pushed prize otherwise.  \<^verbatim>\<open>parts[0]\<close> and
  \<^verbatim>\<open>parts[1]\<close> are read only after the length check, so both exist.  The loop
  keeps \<^verbatim>\<open>totalWeight\<close>, \<^verbatim>\<open>prizes\<close> and \<^verbatim>\<open>isValid\<close> as its state and stops at the
  first segment that breaks.
\<close>

definition parse_segment :: "string \<Rightarrow> prize option" where
  "parse_segment segment =
     (let parts = split_js CHR ''_'' segment
      in if length parts \<noteq> 2 then None
         else (let weight = parseInt10 (parts ! 1)
               in if isNaN weight \<or> num_le weight (Fin 0) then None
                  else Some \<lparr>name = parts ! 0, weight = weight\<rparr>))"

record parse_state =
  totalWeight :: number
  prizes :: "prize list"
  isValid :: bool

fun parse_loop :: "string list \<Rightarrow> parse_state \<Rightarrow> parse_state" where
  "parse_loop [] st = st"
| "parse_loop (segment # rest) st =
     (case parse_segment segment of
        None \<Rightarrow> st\<lparr>isValid := False\<rparr>
      | Some p \<Rightarrow>
          parse_loop rest
            (st\<lparr>prizes := prizes st @ [p],
               totalWeight := num_add (totalWeight st) (weight p)\<rparr>))"

definition init_state :: parse_state where
  "init_state = \<lparr>totalWeight = Fin 0, prizes = [], isValid = True\<rparr>"

text \<open>
  Lines 17--61 as one function: the two early returns are the two errors, and
  falling through to line 63 gives the prizes and their total.
\<close>

definition parseInput :: "string \<Rightarrow> parse_error + prize list \<times> number" where
  "parseInput url =
     (let segments = segments_of url
      in if length segments = 0 then Inl NoPrizesProvided
         else (let st = parse_loop segments init_state
               in if \<not> isValid st then Inl InvalidFormat
                  else Inr (prizes st, totalWeight st)))"

subsection \<open>Lines 66--79: weighted selection\<close>

text \<open>
  The loop over \<^verbatim>\<open>prizes\<close> with the running \<^verbatim>\<open>cumulativeWeight\<close>.  \<^const>\<open>None\<close>
  is \<^verbatim>\<open>winner\<close> still being \<^verbatim>\<open>null\<close> when the loop ends.  The draw is the value
  of \<^verbatim>\<open>Math.random()\<close>, a double in \<open>[0, 1)\<close>.
\<close>

fun select_loop :: "number \<Rightarrow> number \<Rightarrow> prize list \<Rightarrow> string option" where
  "select_loop winningNumber cumulativeWeight [] = None"
| "select_loop winningNumber cumulativeWeight (p # ps) =
     (let cumulativeWeight' = num_add cumulativeWeight (weight p)
      in if num_less winningNumber cumulativeWeight' then Some (name p)
         else select_loop winningNumber cumulativeWeight' ps)"

definition selectWinner :: "prize list \<Rightarrow> number \<Rightarrow> real \<Rightarrow> string option" where
  "selectWinner ps totalW r = select_loop (num_mul (Fin r) totalW) (Fin 0) ps"

text \<open>
  The same loop, returning the position of the prize at which it breaks instead
  of the name found there.
\<close>

fun select_index :: "number \<Rightarrow> number \<Rightarrow> prize list \<Rightarrow> nat option" where
  "select_index winningNumber cumulativeWeight [] = None"
| "select_index winningNumber cumulativeWeight (p # ps) =
     (let cumulativeWeight' = num_add cumulativeWeight (weight p)
      in if num_less winningNumber cumulativeWeight' then Some 0
         else map_option Suc (select_index winningNumber cumulativeWeight' ps))"

definition selectedIndex :: "prize list \<Rightarrow> number \<Rightarrow> real \<Rightarrow> nat option" where
  "selectedIndex ps totalW r = select_index (num_mul (Fin r) totalW) (Fin 0) ps"

subsection \<open>The handler\<close>

definition no_prizes_response :: response where
  "no_prizes_response =
     \<lparr>status = 400,
      body = [(''error'', JString ''No prizes provided.''),
              (''usage'', JString ''Append prizes and their percentages to the URL path, e.g., /prizeA_50/prizeB_30/prizeC_20'')]\<rparr>"

definition invalid_format_response :: response where
  "invalid_format_response =
     \<lparr>status = 400,
      body = [(''error'', JString ''Invalid format detected.''),
              (''details'', JString ''Segments must follow the format: item_percentage (e.g., /apple_40/banana_60). Percentages must be positive numbers.'')]\<rparr>"

definition winner_response :: "string option \<Rightarrow> response" where
  "winner_response winner =
     \<lparr>status = 200,
      body = [(''winner'', (case winner of None \<Rightarrow> JNull | Some w \<Rightarrow> JString w))]\<rparr>"

definition handler :: "string \<Rightarrow> real \<Rightarrow> response" where
  "handler url random =
     (case parseInput url of
        Inl NoPrizesProvided \<Rightarrow> no_prizes_response
      | Inl InvalidFormat \<Rightarrow> invalid_format_response
      | Inr (ps, totalW) \<Rightarrow> winner_response (selectWinner ps totalW random))"

subsection \<open>Notions used to state the properties\<close>

text \<open>
  The value of a string of decimal digits in positional notation; a real that is
  a double (rounding leaves it as it is); a Number that is a positive integer,
  and its value; the exact cumulative weight \<open>C\<^sub>i\<close> of the first \<open>i\<close> prizes
  (\<open>C\<^sub>0 = 0\<close>).
\<close>

definition decimalValue :: "string \<Rightarrow> int" where
  "decimalValue ds = (\<Sum>i<length ds. digitVal (ds ! i) * 10 ^ (length ds - 1 - i))"

definition isDouble :: "real \<Rightarrow> bool" where
  "isDouble x \<longleftrightarrow> fl x = Fin x"

fun posInt :: "number \<Rightarrow> bool" where
  "posInt (Fin x) = (0 < x \<and> of_int \<lfloor>x\<rfloor> = x)"
| "posInt _ = False"

fun weightVal :: "number \<Rightarrow> real" where
  "weightVal (Fin x) = x"
| "weightVal _ = 0"

definition cumulative :: "prize list \<Rightarrow> nat \<Rightarrow> real" where
  "cumulative ps i = sum_list (map (\<lambda>p. weightVal (weight p)) (take i ps))"

section \<open>Properties of the building blocks\<close>

subsection \<open>Rounding\<close>

lemma expo_from_bounds: "- 1022 \<le> expo_from n x \<and> expo_from n x \<le> int n - 1022"
  by (induction n) auto

lemma expo_from_lower: "2 powi (- 1022) \<le> x \<Longrightarrow> 2 powi (expo_from n x) \<le> x"
  by (induction n) auto

lemma expo_from_upper: "x < 2 powi (int n - 1021) \<Longrightarrow> x < 2 powi (expo_from n x + 1)"
proof (induction n)
  case 0
  then show ?case by simp
next
  case (Suc n)
  show ?case
  proof (cases "2 powi (int n - 1021) \<le> x")
    case True
    with Suc.prems show ?thesis by (simp add: algebra_simps)
  next
    case False
    with Suc.IH show ?thesis by simp
  qed
qed

lemma expo_from_subnormal: "x < 2 powi (- 1022) \<Longrightarrow> expo_from n x = - 1022"
proof (induction n)
  case 0
  then show ?case by simp
next
  case (Suc n)
  have "(2::real) powi (- 1022) \<le> 2 powi (int n - 1021)"
    by (rule power_int_increasing) auto
  with Suc show ?case by simp
qed

lemma expo_bounds: "- 1022 \<le> expo x" "expo x \<le> 1023"
  using expo_from_bounds [of 2045 x] by (simp_all add: expo_def)

lemma expo_lower: "2 powi (- 1022) \<le> x \<Longrightarrow> 2 powi (expo x) \<le> x"
  unfolding expo_def by (rule expo_from_lower)

lemma expo_upper: "x < 2 powi 1024 \<Longrightarrow> x < 2 powi (expo x + 1)"
  using expo_from_upper [of x 2045] by (simp add: expo_def)

lemma expo_subnormal: "x < 2 powi (- 1022) \<Longrightarrow> expo x = - 1022"
  unfolding expo_def by (rule expo_from_subnormal)

lemma pow2_less_imp: "(2::real) powi a < 2 powi b \<Longrightarrow> a < b"
proof (rule ccontr)
  assume lt: "(2::real) powi a < 2 powi b" and "\<not> a < b"
  then have "b \<le> a" by simp
  then have "(2::real) powi b \<le> 2 powi a" by (intro power_int_increasing) auto
  with lt show False by simp
qed

lemma expo_eq:
  assumes "- 1022 \<le> e" "e \<le> 1023" "2 powi e \<le> x" "x < 2 powi (e + 1)"
  shows "expo x = e"
proof -
  have "(2::real) powi (- 1022) \<le> 2 powi e"
    using assms(1) by (intro power_int_increasing) auto
  with assms(3) have lo: "2 powi (- 1022) \<le> x" by simp
  have "(2::real) powi (e + 1) \<le> 2 powi 1024"
    using assms(2) by (intro power_int_increasing) auto
  with assms(4) have hi: "x < 2 powi 1024" by simp
  have "(2::real) powi (expo x) < 2 powi (e + 1)"
    using expo_lower [OF lo] assms(4) by simp
  then have a: "expo x < e + 1" by (rule pow2_less_imp)
  have "(2::real) powi e < 2 powi (expo x + 1)"
    using expo_upper [OF hi] assms(3) by simp
  then have b: "e < expo x + 1" by (rule pow2_less_imp)
  from a b show ?thesis by simp
qed

lemma roundHalfEven_of_int [simp]: "roundHalfEven (of_int m) = m"
  by (simp add: roundHalfEven_def)

lemma roundHalfEven_ge_floor: "\<lfloor>q\<rfloor> \<le> roundHalfEven q"
  by (simp add: roundHalfEven_def Let_def)

lemma roundHalfEven_le:
  assumes "q < of_int N - 1 / 2"
  shows "roundHalfEven q \<le> N - 1"
proof -
  have "q < of_int N" using assms by simp
  then have "\<lfloor>q\<rfloor> < N" by (simp add: floor_less_iff)
  then have f: "\<lfloor>q\<rfloor> \<le> N - 1" by simp
  show ?thesis
  proof (cases "\<lfloor>q\<rfloor> = N - 1")
    case True
    then have "q - of_int \<lfloor>q\<rfloor> < 1 / 2" using assms by simp
    then show ?thesis using True by (simp add: roundHalfEven_def Let_def)
  next
    case False
    with f have "\<lfloor>q\<rfloor> + 1 \<le> N - 1" by simp
    then show ?thesis by (auto simp: roundHalfEven_def Let_def)
  qed
qed

lemma roundPos_exact:
  assumes "x / 2 powi (expo x - 52) = of_int m" "x < 2 powi 1024"
  shows "roundPos x = Fin x"
proof -
  have "of_int (roundHalfEven (x / 2 powi (expo x - 52))) * 2 powi (expo x - 52) = x"
    unfolding assms(1) roundHalfEven_of_int
    using assms(1) [symmetric] by simp
  then show ?thesis using assms(2) by (simp add: roundPos_def Let_def)
qed

lemma expo_of_int_range:
  assumes "1 \<le> n" "n \<le> 2 ^ 53"
  shows "0 \<le> expo (of_int n)" "expo (of_int n) \<le> 53"
proof -
  let ?x = "real_of_int n"
  have x1: "1 \<le> ?x" using assms(1) by simp
  have x2: "?x \<le> 2 ^ 53" using assms(2) by (metis of_int_le_iff of_int_numeral of_int_power)
  have lo: "2 powi (- 1022) \<le> ?x"
  proof -
    have "(2::real) powi (- 1022) \<le> 2 powi 0" by (intro power_int_increasing) auto
    with x1 show ?thesis by simp
  qed
  have hi: "?x < 2 powi 1024"
  proof -
    have "(2::real) powi 53 < 2 powi 1024" by (intro power_int_strict_increasing) auto
    with x2 show ?thesis by simp
  qed
  have "(2::real) powi 0 < 2 powi (expo ?x + 1)"
    using expo_upper [OF hi] x1 by simp
  then have "0 < expo ?x + 1" by (rule pow2_less_imp)
  then show "0 \<le> expo ?x" by simp
  have "(2::real) powi (expo ?x) < 2 powi 54"
  proof -
    have "(2::real) powi 53 < 2 powi 54" by (intro power_int_strict_increasing) auto
    with expo_lower [OF lo] x2 show ?thesis by simp
  qed
  then have "expo ?x < 54" by (rule pow2_less_imp)
  then show "expo ?x \<le> 53" by simp
qed

lemma roundPos_of_int:
  assumes "1 \<le> n" "n \<le> 2 ^ 53"
  shows "roundPos (of_int n) = Fin (of_int n)"
proof -
  let ?x = "real_of_int n"
  let ?e = "expo ?x"
  note e = expo_of_int_range [OF assms]
  have x2: "?x \<le> 2 ^ 53" using assms(2) by (metis of_int_le_iff of_int_numeral of_int_power)
  have hi: "?x < 2 powi 1024"
  proof -
    have "(2::real) powi 53 < 2 powi 1024" by (intro power_int_strict_increasing) auto
    with x2 show ?thesis by simp
  qed
  have lo: "2 powi (- 1022) \<le> ?x"
  proof -
    have "(2::real) powi (- 1022) \<le> 2 powi 0" by (intro power_int_increasing) auto
    with assms(1) show ?thesis by simp
  qed
  have "\<exists>m. ?x / 2 powi (?e - 52) = of_int m"
  proof (cases "?e \<le> 52")
    case True
    have "?x / 2 powi (?e - 52) = ?x * 2 powi (52 - ?e)"
      by (simp add: power_int_diff field_simps)
    also have "(2::real) powi (52 - ?e) = 2 ^ nat (52 - ?e)"
      using True by (simp add: power_int_def)
    also have "?x * 2 ^ nat (52 - ?e) = of_int (n * 2 ^ nat (52 - ?e))" by simp
    finally show ?thesis by blast
  next
    case False
    with e have e53: "?e = 53" by simp
    have "(2::real) powi 53 \<le> ?x" using expo_lower [OF lo] e53 by simp
    with x2 have "?x = 2 ^ 53" by simp
    then have "?x / 2 powi (?e - 52) = of_int (2 ^ 52)" unfolding e53 by simp
    then show ?thesis by blast
  qed
  then obtain m where "?x / 2 powi (?e - 52) = of_int m" by blast
  from roundPos_exact [OF this hi] show ?thesis .
qed

lemma fl_of_int:
  assumes "\<bar>n\<bar> \<le> 2 ^ 53"
  shows "fl (of_int n) = Fin (of_int n)"
proof -
  consider "n = 0" | "1 \<le> n" | "1 \<le> - n" by linarith
  then show ?thesis
  proof cases
    case 1
    then show ?thesis by (simp add: fl_def)
  next
    case 2
    with assms have "roundPos (of_int n) = Fin (of_int n)"
      by (intro roundPos_of_int) auto
    with 2 show ?thesis by (simp add: fl_def)
  next
    case 3
    with assms have "roundPos (of_int (- n)) = Fin (of_int (- n))"
      by (intro roundPos_of_int) auto
    with 3 show ?thesis by (simp add: fl_def)
  qed
qed

lemma fl_overflow:
  assumes "2 powi 1024 \<le> x"
  shows "fl x = PInf"
proof -
  have "(2::real) powi 1023 \<le> 2 powi 1024" by (intro power_int_increasing) auto
  with assms have "2 powi (int 2044 - 1021) \<le> x" by simp
  then have "expo_from (Suc 2044) x = int 2044 - 1021"
    by (simp only: expo_from.simps if_True)
  then have e: "expo x = 1023" by (simp add: expo_def)
  have "(2::real) ^ 53 = 2 powi 1024 / 2 powi 971"
    by (simp flip: power_int_diff)
  also have "\<dots> \<le> x / 2 powi 971" using assms by (simp add: divide_right_mono)
  finally have "2 ^ 53 \<le> \<lfloor>x / 2 powi 971\<rfloor>"
    by (simp add: le_floor_iff)
  then have "2 ^ 53 \<le> roundHalfEven (x / 2 powi 971)"
    using roundHalfEven_ge_floor [of "x / 2 powi 971"] by linarith
  then have "(2::real) ^ 53 \<le> of_int (roundHalfEven (x / 2 powi 971))"
    by (metis of_int_le_iff of_int_numeral of_int_power)
  then have "(2::real) ^ 53 * 2 powi 971 \<le> of_int (roundHalfEven (x / 2 powi 971)) * 2 powi 971"
    by (simp add: mult_right_mono)
  moreover have "(2::real) ^ 53 * 2 powi 971 = 2 powi 1024"
    using power_int_add [of "2::real" 53 971] by simp
  ultimately have "(2::real) powi 1024 \<le> of_int (roundHalfEven (x / 2 powi 971)) * 2 powi 971"
    by simp
  then have "roundPos x = PInf" by (simp add: roundPos_def e Let_def)
  moreover have "(0::real) < 2 powi 1024" by simp
  with assms have "0 < x" by linarith
  ultimately show ?thesis by (simp add: fl_def)
qed

lemma fl_positive:
  assumes "1 \<le> x"
  shows "fl x = PInf \<or> (\<exists>y. fl x = Fin y \<and> 0 < y)"
proof -
  have lo: "2 powi (- 1022) \<le> x"
  proof -
    have "(2::real) powi (- 1022) \<le> 2 powi 0" by (intro power_int_increasing) auto
    with assms show ?thesis by simp
  qed
  let ?u = "2 powi (expo x - 52) :: real"
  have u: "0 < ?u" by simp
  have "0 < x / ?u" using assms u by simp
  then have "0 \<le> \<lfloor>x / ?u\<rfloor>" by simp
  have "2 powi 52 * ?u = 2 powi (expo x)"
    using power_int_add [of "2::real" 52 "expo x - 52"] by simp
  then have "2 powi 52 * ?u \<le> x" using expo_lower [OF lo] by simp
  then have "2 powi 52 \<le> x / ?u" using u by (simp add: pos_le_divide_eq)
  then have "2 ^ 52 \<le> \<lfloor>x / ?u\<rfloor>" by (simp add: le_floor_iff)
  moreover have "(0::int) < 2 ^ 52" by simp
  ultimately have "0 < roundHalfEven (x / ?u)"
    using roundHalfEven_ge_floor [of "x / ?u"] by linarith
  then have "0 < of_int (roundHalfEven (x / ?u)) * ?u" using u by simp
  moreover have "0 < x" using assms by simp
  ultimately show ?thesis by (auto simp: fl_def roundPos_def Let_def)
qed

lemma fl_Fin_pos:
  assumes "fl x = Fin x" "0 < x"
  shows "x = of_int (roundHalfEven (x / 2 powi (expo x - 52))) * 2 powi (expo x - 52)"
  using assms by (simp add: fl_def roundPos_def Let_def split: if_splits)

lemma double_below_one:
  assumes "fl r = Fin r" "0 \<le> r" "r < 1"
  shows "r \<le> 1 - 2 powi (- 53)"
proof -
  define u :: real where "u = 2 powi (- 53)"
  have u: "0 < u" by (simp add: u_def)
  have one: "2 powi 53 * u = 1"
    using power_int_add [of "2::real" 53 "- 53"] by (simp only: u_def) simp
  have uhalf: "u \<le> 1 / 2"
  proof -
    have "(2::real) powi (- 53) \<le> 2 powi (- 1)" by (intro power_int_increasing) auto
    then show ?thesis by (simp add: u_def)
  qed
  show ?thesis
  proof (cases "r < 1 / 2")
    case True
    with uhalf show ?thesis unfolding u_def [symmetric] by linarith
  next
    case False
    then have half: "2 powi (- 1) \<le> r" by simp
    have "r < 2 powi (- 1 + 1)" using assms(3) by simp
    with half have e: "expo r = - 1" by (intro expo_eq) simp_all
    define m where "m = roundHalfEven (r / u)"
    have rpos: "0 < r" using False by simp
    have r: "r = of_int m * u"
      using fl_Fin_pos [OF assms(1) rpos] unfolding e m_def u_def by simp
    with assms(3) one have "of_int m * u < 2 powi 53 * u" by simp
    then have "real_of_int m < 2 powi 53" using u by (simp only: mult_less_cancel_right_pos)
    then have "real_of_int m < 2 ^ 53" by simp
    then have "m < 2 ^ 53" by simp
    then have "m \<le> 2 ^ 53 - 1" by simp
    then have "real_of_int m \<le> real_of_int (2 ^ 53 - 1)" by (simp only: of_int_le_iff)
    then have "real_of_int m \<le> 2 powi 53 - 1" by simp
    then have "of_int m * u \<le> (2 powi 53 - 1) * u" using u by (intro mult_right_mono) auto
    also have "\<dots> = 1 - u" using one by (simp only: left_diff_distrib mult_1)
    finally show ?thesis using r by (simp only: u_def)
  qed
qed

lemma fl_mul_below:
  assumes n: "1 \<le> n" "n \<le> 2 ^ 53" and r: "fl r = Fin r" "0 \<le> r" "r < 1"
  shows "\<exists>w. fl (r * of_int n) = Fin w \<and> 0 \<le> w \<and> w < of_int n"
proof (cases "r = 0")
  case True
  with n show ?thesis by (simp add: fl_def)
next
  case False
  define T where "T = real_of_int n"
  define y where "y = r * T"
  define e where "e = expo y"
  define u :: real where "u = 2 powi (e - 52)"
  define h :: real where "h = 2 powi (- 53)"
  define P :: real where "P = 2 powi 52"
  define B :: real where "B = 2 powi 53"
  define M :: real where "M = 2 powi 1024"
  define L :: real where "L = 2 powi (- 1022)"
  have T1: "1 \<le> T" using n(1) by (simp add: T_def)
  have "T \<le> 2 ^ 53"
    using n(2) unfolding T_def by (metis of_int_le_iff of_int_numeral of_int_power)
  then have T2: "T \<le> B" by (simp add: B_def)
  have BM: "B < M" unfolding B_def M_def by (intro power_int_strict_increasing) auto
  have ypos: "0 < y" using False r(2) T1 by (simp add: y_def)
  have yT: "y < T" using r(3) T1 by (simp add: y_def)
  have u: "0 < u" by (simp add: u_def)
  have h: "0 < h" by (simp add: h_def)
  have half: "P * h = 1 / 2"
    using power_int_add [of "2::real" 52 "- 53"] by (simp add: h_def P_def power_int_minus)
  have Pu: "P * u = 2 powi e"
    using power_int_add [of "2::real" 52 "e - 52"] by (simp add: u_def P_def)
  have yle: "y \<le> T - T * h"
  proof -
    have "r \<le> 1 - h" unfolding h_def using r by (rule double_below_one)
    then have "r * T \<le> (1 - h) * T" using T1 by (intro mult_right_mono) auto
    then show ?thesis by (simp add: y_def algebra_simps)
  qed
  have sub: "e = - 1022" if "y < L"
    using that unfolding e_def L_def by (rule expo_subnormal)
  have nor: "2 powi e \<le> y" if "\<not> y < L"
    using that unfolding e_def L_def by (intro expo_lower) simp
  have e52: "e \<le> 52"
  proof (cases "y < L")
    case True
    then show ?thesis using sub by simp
  next
    case False
    with nor yT T2 have "(2::real) powi e < 2 powi 53" unfolding B_def by linarith
    then have "e < 53" by (rule pow2_less_imp)
    then show ?thesis by simp
  qed
  define N where "N = n * 2 ^ nat (52 - e)"
  have N: "real_of_int N = T / u"
  proof -
    have "u * 2 powi (52 - e) = 1"
      using power_int_add [of "2::real" "e - 52" "52 - e"] by (simp add: u_def)
    then have "T / u = T * 2 powi (52 - e)" using u by (simp add: field_simps)
    also have "(2::real) powi (52 - e) = 2 ^ nat (52 - e)"
      using e52 by (simp add: power_int_def)
    finally show ?thesis by (simp add: N_def T_def)
  qed
  have Nbig: "P < real_of_int N"
  proof (cases "y < L")
    case True
    then have e: "e = - 1022" by (rule sub)
    have "P < 2 powi 1074" unfolding P_def by (intro power_int_strict_increasing) auto
    also have "(2::real) powi 1074 * u = 1"
      using power_int_add [of "2::real" 1074 "- 1074"] unfolding u_def e by simp
    then have "(2::real) powi 1074 = 1 / u" using u by (simp add: field_simps)
    also have "1 / u \<le> T / u" using T1 u by (simp add: divide_right_mono)
    finally show ?thesis by (simp only: N)
  next
    case False
    with nor Pu have "P * u \<le> y" by simp
    then have "P \<le> y / u" using u by (simp add: pos_le_divide_eq)
    also have "y / u < T / u" using yT u by (simp add: divide_strict_right_mono)
    finally show ?thesis by (simp only: N)
  qed
  have "y / u \<le> (T - T * h) / u" using yle u by (simp add: divide_right_mono)
  also have "\<dots> = real_of_int N - real_of_int N * h" by (simp add: N diff_divide_distrib)
  also have "\<dots> < real_of_int N - 1 / 2"
  proof -
    have "P * h < real_of_int N * h" using Nbig h by (rule mult_strict_right_mono)
    then show ?thesis unfolding half by linarith
  qed
  finally have "roundHalfEven (y / u) \<le> N - 1" by (rule roundHalfEven_le)
  then have "real_of_int (roundHalfEven (y / u)) \<le> real_of_int (N - 1)"
    by (simp only: of_int_le_iff)
  then have "real_of_int (roundHalfEven (y / u)) \<le> real_of_int N - 1" by simp
  then have "real_of_int (roundHalfEven (y / u)) * u \<le> (real_of_int N - 1) * u"
    using u by (intro mult_right_mono) auto
  also have "\<dots> = T - u" using u by (simp add: N algebra_simps)
  finally have w_le: "real_of_int (roundHalfEven (y / u)) * u \<le> T - u" .
  have "0 \<le> y / u" using ypos u by simp
  then have "0 \<le> \<lfloor>y / u\<rfloor>" by simp
  then have "0 \<le> roundHalfEven (y / u)"
    using roundHalfEven_ge_floor [of "y / u"] by linarith
  then have w_ge: "0 \<le> real_of_int (roundHalfEven (y / u)) * u" using u by simp
  from w_le T2 BM u have "\<not> M \<le> real_of_int (roundHalfEven (y / u)) * u" by linarith
  then have "roundPos y = Fin (real_of_int (roundHalfEven (y / u)) * u)"
    unfolding roundPos_def Let_def e_def [symmetric] u_def [symmetric] M_def [symmetric]
    by (simp only: if_False)
  then have "fl y = Fin (real_of_int (roundHalfEven (y / u)) * u)"
    using ypos by (simp add: fl_def)
  with w_le w_ge u show ?thesis unfolding y_def T_def by (intro exI conjI) auto
qed

lemma fl_at:
  assumes "- 1022 \<le> e" "e \<le> 1023" "2 powi e \<le> x" "x < 2 powi (e + 1)"
  shows "fl x =
    (let y = of_int (roundHalfEven (x / 2 powi (e - 52))) * 2 powi (e - 52)
     in if 2 powi 1024 \<le> y then PInf else Fin y)"
proof -
  have "(0::real) < 2 powi e" by simp
  with assms(3) have "0 < x" by linarith
  moreover have "expo x = e" using assms by (rule expo_eq)
  ultimately show ?thesis by (simp add: fl_def roundPos_def Let_def)
qed

lemma fl_0 [simp]: "fl 0 = Fin 0"
  by (simp add: fl_def)

lemma fl_1 [simp]: "fl 1 = Fin 1"
  using fl_of_int [of 1] by simp

lemma fl_numeral: "numeral k \<le> (2::int) ^ 53 \<Longrightarrow> fl (numeral k) = Fin (numeral k)"
  using fl_of_int [of "numeral k"] by simp

lemma fl_tie_even: "fl 9007199254740993 = Fin 9007199254740992"
  using fl_at [of 53 9007199254740993] by (simp add: roundHalfEven_def)

lemma draw_isDouble: "fl (6004799503160661 / 2 ^ 53) = Fin (6004799503160661 / 2 ^ 53)"
  using fl_at [of "- 1" "6004799503160661 / 2 ^ 53"]
  by (simp add: roundHalfEven_def power_int_minus)

lemma fl_tie_up: "fl (6004799503160661 / 2 ^ 53 * 3) = Fin 2"
  using fl_at [of 0 "6004799503160661 / 2 ^ 53 * 3"]
  by (simp add: roundHalfEven_def power_int_minus)

subsection \<open>Splitting and parsing\<close>

lemma split_js_not_Nil: "split_js c s \<noteq> []"
  by (induction s) (auto split: list.splits)

lemma hd_split_js: "hd (split_js c s) = takeWhile (\<lambda>x. x \<noteq> c) s"
  by (induction s) (auto split: list.splits simp: split_js_not_Nil)

lemma length_split_js: "length (split_js c s) = Suc (count_list s c)"
  by (induction s) (auto split: list.splits simp: split_js_not_Nil)

lemma split_js_no_sep: "p \<in> set (split_js c s) \<Longrightarrow> c \<notin> set p"
  by (induction s arbitrary: p) (auto split: list.splits if_splits)

lemma split_js_subset: "p \<in> set (split_js c s) \<Longrightarrow> set p \<subseteq> set s"
proof (induction s arbitrary: p)
  case Nil
  then show ?case by simp
next
  case (Cons x xs)
  obtain q qs where q: "split_js c xs = q # qs"
    using split_js_not_Nil [of c xs] by (cases "split_js c xs") auto
  have sub: "set q \<subseteq> set xs" "\<And>p'. p' \<in> set qs \<Longrightarrow> set p' \<subseteq> set xs"
    using Cons.IH q by auto
  show ?case
  proof (cases "x = c")
    case True
    with Cons.prems q sub show ?thesis by auto
  next
    case False
    with Cons.prems q have "p = x # q \<or> p \<in> set qs" by auto
    with sub show ?thesis by auto
  qed
qed

lemma split_js_no_occurrence: "c \<notin> set a \<Longrightarrow> split_js c a = [a]"
  by (induction a) auto

lemma split_js_append: "c \<notin> set a \<Longrightarrow> split_js c (a @ c # b) = a # split_js c b"
  by (induction a) auto

lemma split_js_decompose:
  "split_js c s = takeWhile (\<lambda>x. x \<noteq> c) s #
     (if c \<in> set s then split_js c (tl (dropWhile (\<lambda>x. x \<noteq> c) s)) else [])"
  by (induction s) (auto split: list.splits simp: split_js_not_Nil)

lemma split_js_two:
  assumes "length (split_js c s) = 2"
  shows "split_js c s = [takeWhile (\<lambda>x. x \<noteq> c) s, tl (dropWhile (\<lambda>x. x \<noteq> c) s)]"
    and "c \<notin> set (tl (dropWhile (\<lambda>x. x \<noteq> c) s))"
proof -
  let ?t = "tl (dropWhile (\<lambda>x. x \<noteq> c) s)"
  have dec: "split_js c s = takeWhile (\<lambda>x. x \<noteq> c) s # (if c \<in> set s then split_js c ?t else [])"
    by (rule split_js_decompose)
  from assms dec have mem: "c \<in> set s" by (auto split: if_splits)
  with assms dec have "length (split_js c ?t) = 1" by simp
  then have "count_list ?t c = 0" by (simp add: length_split_js)
  then show notin: "c \<notin> set ?t" by (simp add: count_list_0_iff)
  then have "split_js c ?t = [?t]" by (rule split_js_no_occurrence)
  with dec mem show "split_js c s = [takeWhile (\<lambda>x. x \<noteq> c) s, ?t]" by simp
qed

lemma length_split_js_two_iff: "length (split_js c s) = 2 \<longleftrightarrow> count_list s c = 1"
  by (simp add: length_split_js)

lemma mathInt_snoc: "mathInt (ds @ [d]) = 10 * mathInt ds + digitVal d"
  by (simp add: mathInt_def)

lemma mathInt_nonneg: "\<forall>c\<in>set ds. isDigit c \<Longrightarrow> 0 \<le> mathInt ds"
  by (induction ds rule: rev_induct) (auto simp: mathInt_snoc digitVal_def isDigit_def mathInt_def)

lemma mathInt_decimalValue: "mathInt ds = decimalValue ds"
proof (induction ds rule: rev_induct)
  case Nil
  then show ?case by (simp add: mathInt_def decimalValue_def)
next
  case (snoc d ds)
  have "decimalValue (ds @ [d]) =
      (\<Sum>i<length ds. digitVal ((ds @ [d]) ! i) * 10 ^ (length ds - i)) + digitVal d"
    by (simp add: decimalValue_def)
  also have "(\<Sum>i<length ds. digitVal ((ds @ [d]) ! i) * 10 ^ (length ds - i))
      = (\<Sum>i<length ds. 10 * (digitVal (ds ! i) * 10 ^ (length ds - 1 - i)))"
  proof (rule sum.cong)
    fix i assume "i \<in> {..<length ds}"
    then have i: "i < length ds" by simp
    then have "length ds - i = Suc (length ds - 1 - i)" by arith
    with i show "digitVal ((ds @ [d]) ! i) * 10 ^ (length ds - i)
        = 10 * (digitVal (ds ! i) * 10 ^ (length ds - 1 - i))"
      by (simp add: nth_append)
  qed simp
  also have "\<dots> = 10 * decimalValue ds"
    by (simp add: decimalValue_def sum_distrib_left)
  finally show ?case using snoc by (simp add: mathInt_snoc)
qed

lemma isDigit_not_sep:
  "isDigit c \<Longrightarrow> c \<noteq> CHR ''_'' \<and> c \<noteq> CHR ''/'' \<and> c \<noteq> CHR ''?'' \<and> c \<noteq> CHR ''+'' \<and> c \<noteq> CHR ''-'' \<and> \<not> isWhiteSpace c"
  by (auto simp: isDigit_def isWhiteSpace_def)

lemma isWhiteSpace_not_sep:
  "isWhiteSpace c \<Longrightarrow> c \<noteq> CHR ''_'' \<and> c \<noteq> CHR ''+'' \<and> c \<noteq> CHR ''-'' \<and> \<not> isDigit c"
  by (auto simp: isDigit_def isWhiteSpace_def)

lemma parseInt10_lenient:
  assumes ws: "\<forall>c\<in>set ws. isWhiteSpace c"
    and sg: "sg = [] \<or> sg = ''+'' \<or> sg = ''-''"
    and ds: "ds \<noteq> []" "\<forall>c\<in>set ds. isDigit c"
    and rest: "rest = [] \<or> \<not> isDigit (hd rest)"
  shows "parseInt10 (ws @ sg @ ds @ rest) =
           fl (of_int ((if sg = ''-'' then - 1 else 1) * mathInt ds))"
proof -
  obtain d ds' where dsc: "ds = d # ds'" using ds(1) by (cases ds) auto
  have d: "isDigit d" using ds(2) dsc by simp
  note nd = isDigit_not_sep [OF d]
  have tw: "takeWhile isDigit (ds @ rest) = ds"
    using ds(2) rest by (cases rest) (auto simp: takeWhile_append2)
  have nws: "sg @ ds @ rest \<noteq> [] \<and> \<not> isWhiteSpace (hd (sg @ ds @ rest))"
    using sg nd dsc by (auto simp: isWhiteSpace_def)
  have dw: "dropWhile isWhiteSpace (ws @ sg @ ds @ rest) = sg @ ds @ rest"
    using ws nws by (cases "sg @ ds @ rest") (auto simp: dropWhile_append)
  from sg consider "sg = []" | "sg = ''+''" | "sg = ''-''" by blast
  then show ?thesis
  proof cases
    case 1
    then show ?thesis unfolding parseInt10_def dw using tw nd dsc by (simp add: Let_def)
  next
    case 2
    then show ?thesis unfolding parseInt10_def dw using tw ds(1) by (simp add: Let_def)
  next
    case 3
    then show ?thesis unfolding parseInt10_def dw using tw ds(1) by (simp add: Let_def)
  qed
qed

lemma parseInt10_digits:
  assumes "ds \<noteq> []" "\<forall>c\<in>set ds. isDigit c" "rest = [] \<or> \<not> isDigit (hd rest)"
  shows "parseInt10 (ds @ rest) = fl (of_int (mathInt ds))"
  using parseInt10_lenient [of "[]" "[]" ds rest] assms by simp

lemma accepted_weight:
  assumes "1 \<le> v"
  shows "\<not> isNaN (fl (of_int v)) \<and> \<not> num_le (fl (of_int v)) (Fin 0)"
proof -
  have "1 \<le> real_of_int v" using assms by simp
  from fl_positive [OF this] show ?thesis by auto
qed

lemma parse_segment_accept:
  assumes "CHR ''_'' \<notin> set label" "CHR ''_'' \<notin> set w"
    "\<not> isNaN (parseInt10 w)" "\<not> num_le (parseInt10 w) (Fin 0)"
  shows "parse_segment (label @ CHR ''_'' # w) = Some \<lparr>name = label, weight = parseInt10 w\<rparr>"
proof -
  have "split_js CHR ''_'' (label @ CHR ''_'' # w) = [label, w]"
    using assms(1,2) by (simp add: split_js_append split_js_no_occurrence)
  then show ?thesis using assms(3,4) by (simp add: parse_segment_def)
qed

lemma isValid_parse_loop:
  "isValid (parse_loop segs st) \<longleftrightarrow> isValid st \<and> (\<forall>s\<in>set segs. parse_segment s \<noteq> None)"
  by (induction segs arbitrary: st) (auto split: option.splits)

lemma parse_loop_all_valid:
  "\<forall>s\<in>set segs. parse_segment s \<noteq> None \<Longrightarrow>
   parse_loop segs st =
     st\<lparr>prizes := prizes st @ map (\<lambda>s. the (parse_segment s)) segs,
        totalWeight := foldl num_add (totalWeight st)
                         (map (\<lambda>s. weight (the (parse_segment s))) segs)\<rparr>"
  by (induction segs arbitrary: st) (auto split: option.splits)

lemma parse_loop_first_invalid:
  "\<forall>s\<in>set pre. parse_segment s \<noteq> None \<Longrightarrow> parse_segment bad = None \<Longrightarrow>
   parse_loop (pre @ bad # post) st =
     st\<lparr>prizes := prizes st @ map (\<lambda>s. the (parse_segment s)) pre,
        totalWeight := foldl num_add (totalWeight st)
                         (map (\<lambda>s. weight (the (parse_segment s))) pre),
        isValid := False\<rparr>"
  by (induction pre arbitrary: st) (auto split: option.splits)

lemma parseInput_NoPrizes_iff:
  "parseInput url = Inl NoPrizesProvided \<longleftrightarrow> segments_of url = []"
  by (simp add: parseInput_def Let_def)

lemma parseInput_Invalid_iff:
  "parseInput url = Inl InvalidFormat \<longleftrightarrow>
     (\<exists>s\<in>set (segments_of url). parse_segment s = None)"
  by (auto simp: parseInput_def Let_def isValid_parse_loop init_state_def)

lemma parseInput_Inr_iff:
  "parseInput url = Inr (ps, tw) \<longleftrightarrow>
     segments_of url \<noteq> [] \<and> (\<forall>s\<in>set (segments_of url). parse_segment s \<noteq> None) \<and>
     ps = map (\<lambda>s. the (parse_segment s)) (segments_of url) \<and>
     tw = foldl num_add (Fin 0) (map weight ps)"
proof (cases "segments_of url \<noteq> [] \<and> (\<forall>s\<in>set (segments_of url). parse_segment s \<noteq> None)")
  case True
  then have "parse_loop (segments_of url) init_state =
      init_state\<lparr>prizes := prizes init_state @ map (\<lambda>s. the (parse_segment s)) (segments_of url),
        totalWeight := foldl num_add (totalWeight init_state)
          (map (\<lambda>s. weight (the (parse_segment s))) (segments_of url))\<rparr>"
    using parse_loop_all_valid by blast
  with True show ?thesis
    by (auto simp: parseInput_def Let_def init_state_def comp_def)
next
  case False
  then show ?thesis
    by (auto simp: parseInput_def Let_def isValid_parse_loop init_state_def)
qed

lemma parse_segment_Some:
  "parse_segment s = Some p \<Longrightarrow>
     length (split_js CHR ''_'' s) = 2 \<and>
     name p = takeWhile (\<lambda>x. x \<noteq> CHR ''_'') s \<and>
     weight p = parseInt10 (tl (dropWhile (\<lambda>x. x \<noteq> CHR ''_'') s)) \<and>
     \<not> isNaN (weight p) \<and> \<not> num_le (weight p) (Fin 0)"
proof -
  assume a: "parse_segment s = Some p"
  then have len: "length (split_js CHR ''_'' s) = 2"
    by (auto simp: parse_segment_def Let_def split: if_splits)
  note two = split_js_two(1) [OF len]
  from a len show ?thesis
    unfolding parse_segment_def Let_def two
    by (auto split: if_splits)
qed

lemma parse_segment_None_iff:
  "parse_segment s = None \<longleftrightarrow>
     length (split_js CHR ''_'' s) \<noteq> 2 \<or>
     isNaN (parseInt10 (split_js CHR ''_'' s ! 1)) \<or>
     num_le (parseInt10 (split_js CHR ''_'' s ! 1)) (Fin 0)"
  by (auto simp: parse_segment_def Let_def)

lemma path_of_eq: "path_of url = takeWhile (\<lambda>x. x \<noteq> CHR ''?'') url"
  by (simp add: path_of_def hd_split_js)

lemma segment_chars:
  assumes "s \<in> set (segments_of url)"
  shows "s \<noteq> []" "CHR ''/'' \<notin> set s" "CHR ''?'' \<notin> set s" "s \<noteq> ''api''" "s \<noteq> ''picker''"
proof -
  from assms have mem: "s \<in> set (split_js CHR ''/'' (path_of url))"
    and ne: "s \<noteq> []" "s \<noteq> ''api''" "s \<noteq> ''picker''"
    by (auto simp: segments_of_def)
  show "s \<noteq> []" "s \<noteq> ''api''" "s \<noteq> ''picker''" using ne by auto
  show "CHR ''/'' \<notin> set s" using mem by (rule split_js_no_sep)
  have "set s \<subseteq> set (path_of url)" using mem by (rule split_js_subset)
  moreover have "CHR ''?'' \<notin> set (path_of url)"
    unfolding path_of_eq by (auto dest: set_takeWhileD)
  ultimately show "CHR ''?'' \<notin> set s" by auto
qed

lemma segments_of_single:
  assumes "s \<noteq> []" "CHR ''/'' \<notin> set s" "CHR ''?'' \<notin> set s" "s \<noteq> ''api''" "s \<noteq> ''picker''"
  shows "segments_of (CHR ''/'' # s) = [s]"
proof -
  have "path_of (CHR ''/'' # s) = CHR ''/'' # s"
    unfolding path_of_eq using assms(3) by (auto simp: takeWhile_eq_all_conv)
  moreover have "split_js CHR ''/'' (CHR ''/'' # s) = [[], s]"
    using assms(2) by (simp add: split_js_no_occurrence)
  ultimately show ?thesis using assms(1,4,5) by (simp add: segments_of_def)
qed

lemma responses_distinct:
  "no_prizes_response \<noteq> invalid_format_response"
  "no_prizes_response \<noteq> winner_response w"
  "invalid_format_response \<noteq> winner_response w"
  "winner_response w \<noteq> no_prizes_response"
  "winner_response w \<noteq> invalid_format_response"
  by (simp_all add: no_prizes_response_def invalid_format_response_def winner_response_def)

lemma handler_empty_iff:
  "handler url r = no_prizes_response \<longleftrightarrow> parseInput url = Inl NoPrizesProvided"
  using responses_distinct
  by (auto simp: handler_def split: sum.splits parse_error.splits prod.splits)

lemma handler_invalid_iff:
  "handler url r = invalid_format_response \<longleftrightarrow> parseInput url = Inl InvalidFormat"
  using responses_distinct
  by (auto simp: handler_def split: sum.splits parse_error.splits prod.splits)

lemma handler_winner:
  "parseInput url = Inr (ps, tw) \<Longrightarrow> handler url r = winner_response (selectWinner ps tw r)"
  by (simp add: handler_def)

subsection \<open>Exact sums of small positive integers\<close>

lemma posInt_iff: "posInt w \<longleftrightarrow> (\<exists>n. 1 \<le> n \<and> w = Fin (of_int n))"
proof
  assume "posInt w"
  then obtain x where x: "w = Fin x" "0 < x" "of_int \<lfloor>x\<rfloor> = x"
    by (cases w) auto
  define n where "n = \<lfloor>x\<rfloor>"
  have xn: "x = real_of_int n" unfolding n_def by (rule x(3) [symmetric])
  with x(2) have "0 < n" by simp
  then have "1 \<le> n" by simp
  with x(1) xn show "\<exists>n. 1 \<le> n \<and> w = Fin (of_int n)" by blast
next
  assume "\<exists>n. 1 \<le> n \<and> w = Fin (of_int n)"
  then obtain n where "1 \<le> n" "w = Fin (real_of_int n)" by blast
  then show "posInt w" by simp
qed

lemma num_add_exact:
  assumes "\<bar>a + b\<bar> \<le> 2 ^ 53"
  shows "num_add (Fin (of_int a)) (Fin (of_int b)) = Fin (of_int (a + b))"
  using fl_of_int [OF assms] by simp

lemma cumulative_0: "cumulative ps 0 = 0"
  by (simp add: cumulative_def)

lemma cumulative_Cons_Suc:
  "cumulative (p # ps) (Suc i) = weightVal (weight p) + cumulative ps i"
  by (simp add: cumulative_def)

lemma cumulative_Suc:
  "i < length ps \<Longrightarrow> cumulative ps (Suc i) = cumulative ps i + weightVal (weight (ps ! i))"
  by (simp add: cumulative_def take_Suc_conv_app_nth)

lemma posInt_weightVal: "posInt w \<Longrightarrow> 0 < weightVal w"
  by (cases w) auto

lemma cumulative_nonneg: "\<forall>p\<in>set ps. posInt (weight p) \<Longrightarrow> 0 \<le> cumulative ps i"
  unfolding cumulative_def
  by (rule sum_list_nonneg) (auto dest!: in_set_takeD posInt_weightVal intro: less_imp_le)

lemma cumulative_mono:
  assumes "\<forall>p\<in>set ps. posInt (weight p)" "i \<le> j"
  shows "cumulative ps i \<le> cumulative ps j"
proof -
  have "take j ps = take i ps @ take (j - i) (drop i ps)"
    using assms(2) by (metis le_add_diff_inverse take_add)
  moreover have "0 \<le> sum_list (map (\<lambda>p. weightVal (weight p)) (take (j - i) (drop i ps)))"
    by (rule sum_list_nonneg)
      (use assms(1) in \<open>auto dest!: in_set_takeD in_set_dropD posInt_weightVal intro: less_imp_le\<close>)
  ultimately show ?thesis by (simp add: cumulative_def)
qed

lemma cumulative_int:
  "\<forall>p\<in>set ps. posInt (weight p) \<Longrightarrow> \<exists>m. 0 \<le> m \<and> cumulative ps i = of_int m"
proof (induction ps arbitrary: i)
  case Nil
  show ?case by (intro exI [of _ 0]) (simp add: cumulative_def)
next
  case (Cons p ps)
  show ?case
  proof (cases i)
    case 0
    show ?thesis unfolding 0 by (intro exI [of _ 0]) (simp add: cumulative_0)
  next
    case (Suc k)
    from Cons.prems obtain n where n: "1 \<le> n" "weight p = Fin (of_int n)"
      by (auto simp: posInt_iff)
    from Cons.IH [of k] Cons.prems obtain m where m: "0 \<le> m" "cumulative ps k = of_int m"
      by auto
    show ?thesis unfolding Suc cumulative_Cons_Suc
      using n m by (intro exI [of _ "n + m"]) simp
  qed
qed

lemma foldl_num_add_exact:
  assumes "\<forall>p\<in>set ps. posInt (weight p)" "0 \<le> k"
    "of_int k + cumulative ps (length ps) \<le> 2 ^ 53"
  shows "foldl num_add (Fin (of_int k)) (map weight ps) =
           Fin (of_int k + cumulative ps (length ps))"
  using assms
proof (induction ps arbitrary: k)
  case Nil
  then show ?case by (simp add: cumulative_def)
next
  case (Cons p ps)
  from Cons.prems(1) obtain n where n: "1 \<le> n" "weight p = Fin (of_int n)"
    by (auto simp: posInt_iff)
  have rest: "0 \<le> cumulative ps (length ps)"
    using Cons.prems(1) by (intro cumulative_nonneg) auto
  have tot: "of_int (k + n) + cumulative ps (length ps) \<le> 2 ^ 53"
    using Cons.prems(3) n by (simp add: cumulative_Cons_Suc)
  then have "real_of_int (k + n) \<le> 2 ^ 53" using rest by linarith
  then have "k + n \<le> 2 ^ 53" by simp
  then have "\<bar>k + n\<bar> \<le> 2 ^ 53" using Cons.prems(2) n by simp
  then have step: "num_add (Fin (of_int k)) (weight p) = Fin (of_int (k + n))"
    unfolding n by (rule num_add_exact)
  have "foldl num_add (Fin (of_int (k + n))) (map weight ps) =
      Fin (of_int (k + n) + cumulative ps (length ps))"
    using Cons.prems(1,2) n tot by (intro Cons.IH) auto
  then show ?case using step n by (simp add: cumulative_Cons_Suc)
qed

lemma select_loop_index:
  "select_loop wn c ps = map_option (\<lambda>i. name (ps ! i)) (select_index wn c ps)"
  by (induction ps arbitrary: c) (auto simp: Let_def option.map_comp comp_def)

lemma select_index_first:
  assumes "\<forall>p\<in>set ps. posInt (weight p)" "0 \<le> k"
    "of_int k + cumulative ps (length ps) \<le> 2 ^ 53"
  shows "select_index (Fin w) (Fin (of_int k)) ps = Some i \<longleftrightarrow>
     i < length ps \<and> w < of_int k + cumulative ps (Suc i) \<and>
     (\<forall>j<i. \<not> w < of_int k + cumulative ps (Suc j))"
  using assms
proof (induction ps arbitrary: k i)
  case Nil
  then show ?case by simp
next
  case (Cons p ps)
  from Cons.prems(1) obtain n where n: "1 \<le> n" "weight p = Fin (of_int n)"
    by (auto simp: posInt_iff)
  have rest: "0 \<le> cumulative ps (length ps)"
    using Cons.prems(1) by (intro cumulative_nonneg) auto
  have tot: "of_int (k + n) + cumulative ps (length ps) \<le> 2 ^ 53"
    using Cons.prems(3) n by (simp add: cumulative_Cons_Suc)
  then have "real_of_int (k + n) \<le> 2 ^ 53" using rest by linarith
  then have "k + n \<le> 2 ^ 53" by simp
  then have "\<bar>k + n\<bar> \<le> 2 ^ 53" using Cons.prems(2) n by simp
  then have step: "num_add (Fin (of_int k)) (weight p) = Fin (of_int (k + n))"
    unfolding n by (rule num_add_exact)
  have wv: "weightVal (weight p) = of_int n" using n by simp
  have IH: "select_index (Fin w) (Fin (of_int (k + n))) ps = Some i' \<longleftrightarrow>
     i' < length ps \<and> w < of_int (k + n) + cumulative ps (Suc i') \<and>
     (\<forall>j<i'. \<not> w < of_int (k + n) + cumulative ps (Suc j))" for i'
    using Cons.prems(1,2) n tot by (intro Cons.IH) auto
  show ?case
  proof (cases "w < of_int (k + n)")
    case True
    then have "select_index (Fin w) (Fin (of_int k)) (p # ps) = Some 0"
      by (simp add: step Let_def)
    then show ?thesis using True
      by (cases i) (auto simp: cumulative_Cons_Suc cumulative_0 wv)
  next
    case False
    then have sel: "select_index (Fin w) (Fin (of_int k)) (p # ps) =
        map_option Suc (select_index (Fin w) (Fin (of_int (k + n))) ps)"
      by (simp add: step Let_def)
    show ?thesis
    proof (cases i)
      case 0
      with sel False show ?thesis by (auto simp: cumulative_Cons_Suc cumulative_0 wv)
    next
      case (Suc i')
      have "(\<forall>j<Suc i'. \<not> w < of_int k + cumulative (p # ps) (Suc j))
          \<longleftrightarrow> (\<forall>j<i'. \<not> w < of_int (k + n) + cumulative ps (Suc j))"
        using False
        by (auto simp: less_Suc_eq_0_disj cumulative_Cons_Suc cumulative_0 wv add.assoc)
      with sel Suc IH [of i'] show ?thesis
        by (auto simp: cumulative_Cons_Suc wv add.assoc)
    qed
  qed
qed

lemma cumulative_pos:
  assumes "ps \<noteq> []" "\<forall>p\<in>set ps. posInt (weight p)"
  shows "0 < cumulative ps (length ps)"
proof -
  obtain p ps' where c: "ps = p # ps'" using assms(1) by (cases ps) auto
  have "0 \<le> cumulative ps' (length ps')"
    using assms(2) c by (intro cumulative_nonneg) auto
  moreover have "0 < weightVal (weight p)" using assms(2) c by (intro posInt_weightVal) auto
  ultimately show ?thesis by (simp add: c cumulative_Cons_Suc)
qed

lemma winning_number_small:
  assumes "ps \<noteq> []" "\<forall>p\<in>set ps. posInt (weight p)"
    "cumulative ps (length ps) \<le> 2 ^ 53" "isDouble r" "0 \<le> r" "r < 1"
  shows "\<exists>w. num_mul (Fin r) (Fin (cumulative ps (length ps))) = Fin w \<and>
             fl (r * cumulative ps (length ps)) = Fin w \<and>
             0 \<le> w \<and> w < cumulative ps (length ps)"
proof -
  from cumulative_int [OF assms(2), of "length ps"]
  obtain n where n: "0 \<le> n" "cumulative ps (length ps) = of_int n" by blast
  have "0 < real_of_int n" using cumulative_pos [OF assms(1,2)] n by simp
  then have n1: "1 \<le> n" by simp
  have "real_of_int n \<le> 2 ^ 53" using assms(3) n by simp
  then have n2: "n \<le> 2 ^ 53" by simp
  from fl_mul_below [OF n1 n2 _ assms(5,6)] assms(4)
  obtain w where "fl (r * of_int n) = Fin w" "0 \<le> w" "w < of_int n"
    by (auto simp: isDouble_def)
  then show ?thesis unfolding n by (intro exI [of _ w]) simp
qed

lemma selectedIndex_small:
  assumes "\<forall>p\<in>set ps. posInt (weight p)" "cumulative ps (length ps) \<le> 2 ^ 53"
    "num_mul (Fin r) tw = Fin w"
  shows "selectedIndex ps tw r = Some i \<longleftrightarrow>
     i < length ps \<and> w < cumulative ps (Suc i) \<and> (\<forall>j<i. \<not> w < cumulative ps (Suc j))"
  using select_index_first [OF assms(1), of 0 w i] assms(2,3)
  by (simp add: selectedIndex_def)

lemma selectWinner_index:
  "selectWinner ps tw r = map_option (\<lambda>i. name (ps ! i)) (selectedIndex ps tw r)"
  by (simp add: selectWinner_def selectedIndex_def select_loop_index)

lemma first_below_interval:
  assumes pos: "\<forall>p\<in>set ps. posInt (weight p)" and lo: "0 \<le> w"
  shows "(\<forall>j<i. \<not> w < cumulative ps (Suc j)) \<longleftrightarrow> cumulative ps i \<le> w"
proof (cases i)
  case 0
  then show ?thesis using lo by (simp add: cumulative_0)
next
  case (Suc k)
  have "\<not> w < cumulative ps (Suc j)" if "j < i" "cumulative ps i \<le> w" for j
  proof -
    have "cumulative ps (Suc j) \<le> cumulative ps i"
      using pos that(1) by (intro cumulative_mono) auto
    with that(2) show ?thesis by linarith
  qed
  moreover have "cumulative ps i \<le> w" if "\<forall>j<i. \<not> w < cumulative ps (Suc j)"
    using that Suc by (auto simp: not_less)
  ultimately show ?thesis by blast
qed

lemma first_below_exists:
  assumes "ps \<noteq> []" "w < cumulative ps (length ps)"
  shows "\<exists>i<length ps. w < cumulative ps (Suc i) \<and> (\<forall>j<i. \<not> w < cumulative ps (Suc j))"
proof -
  define P where "P i \<longleftrightarrow> i < length ps \<and> w < cumulative ps (Suc i)" for i
  have "P (length ps - 1)" using assms by (cases ps) (auto simp: P_def)
  then have ex: "\<exists>i. P i" by blast
  define i where "i = (LEAST i. P i)"
  have Pi: "P i" unfolding i_def using ex by (rule LeastI_ex)
  have "\<not> P j" if "j < i" for j using that unfolding i_def by (rule not_less_Least)
  then have "\<forall>j<i. \<not> w < cumulative ps (Suc j)"
    using Pi by (auto simp: P_def)
  with Pi show ?thesis by (auto simp: P_def)
qed

subsection \<open>A weight of 309 nines\<close>

lemma nines_digits: "\<forall>c\<in>set (replicate n CHR ''9''). isDigit c"
  by (simp add: isDigit_def)

lemma mathInt_nines: "mathInt (replicate n CHR ''9'') = 10 ^ n - 1"
proof (induction n)
  case 0
  show ?case by (simp add: mathInt_def)
next
  case (Suc n)
  have "replicate (Suc n) CHR ''9'' = replicate n CHR ''9'' @ [CHR ''9'']"
    by (simp add: replicate_append_same)
  then show ?case using Suc by (simp add: mathInt_snoc digitVal_def)
qed

lemma parseInt10_nines: "parseInt10 (replicate 309 CHR ''9'') = PInf"
proof -
  have ne: "replicate 309 CHR ''9'' \<noteq> []" by simp
  have "parseInt10 (replicate 309 CHR ''9'' @ []) = fl (of_int (mathInt (replicate 309 CHR ''9'')))"
    using ne nines_digits by (intro parseInt10_digits) auto
  then have p: "parseInt10 (replicate 309 CHR ''9'') = fl (of_int (10 ^ 309 - 1))"
    by (simp only: append_Nil2 mathInt_nines)
  have "(2::int) ^ 1024 \<le> 10 ^ 309 - 1" by simp
  then have "real_of_int (2 ^ 1024) \<le> real_of_int (10 ^ 309 - 1)" by (simp only: of_int_le_iff)
  then have "(2::real) powi 1024 \<le> real_of_int (10 ^ 309 - 1)" by simp
  then have "fl (real_of_int (10 ^ 309 - 1)) = PInf" by (rule fl_overflow)
  with p show ?thesis by simp
qed

lemma parse_segment_nines:
  "parse_segment (''a_'' @ replicate 309 CHR ''9'') = Some \<lparr>name = ''a'', weight = PInf\<rparr>"
proof -
  have "CHR ''_'' \<notin> set (replicate 309 CHR ''9'')" by simp
  then have "parse_segment (''a'' @ CHR ''_'' # replicate 309 CHR ''9'') =
      Some \<lparr>name = ''a'', weight = parseInt10 (replicate 309 CHR ''9'')\<rparr>"
    by (intro parse_segment_accept) (simp_all add: parseInt10_nines)
  then show ?thesis by (simp add: parseInt10_nines)
qed

lemma parseInput_nines:
  "parseInput (''/a_'' @ replicate 309 CHR ''9'') = Inr ([\<lparr>name = ''a'', weight = PInf\<rparr>], PInf)"
proof -
  have "segments_of (CHR ''/'' # (''a_'' @ replicate 309 CHR ''9'')) =
      [''a_'' @ replicate 309 CHR ''9'']"
    by (intro segments_of_single) auto
  then have "segments_of (''/a_'' @ replicate 309 CHR ''9'') = [''a_'' @ replicate 309 CHR ''9'']"
    by simp
  then show ?thesis
    by (simp add: parseInput_def parse_segment_nines [simplified] init_state_def)
qed

lemma parseInt10_value:
  assumes "\<forall>c\<in>set ws. isWhiteSpace c" "sg = [] \<or> sg = ''+''"
    "ds \<noteq> []" "\<forall>c\<in>set ds. isDigit c" "rest = [] \<or> \<not> isDigit (hd rest)"
  shows "parseInt10 (ws @ sg @ ds @ rest) = fl (of_int (decimalValue ds))"
    and "decimalValue ds \<le> 2 ^ 53 \<Longrightarrow>
           parseInt10 (ws @ sg @ ds @ rest) = Fin (of_int (decimalValue ds))"
    and "2 ^ 1024 \<le> decimalValue ds \<Longrightarrow> parseInt10 (ws @ sg @ ds @ rest) = PInf"
    and "CHR ''_'' \<notin> set label \<Longrightarrow> CHR ''_'' \<notin> set rest \<Longrightarrow> 0 < decimalValue ds \<Longrightarrow>
           parse_segment (label @ CHR ''_'' # ws @ sg @ ds @ rest) =
             Some \<lparr>name = label, weight = fl (of_int (decimalValue ds))\<rparr>"
proof -
  have sg': "sg = [] \<or> sg = ''+'' \<or> sg = ''-''" "sg \<noteq> ''-''" using assms(2) by auto
  from parseInt10_lenient [OF assms(1) sg'(1) assms(3,4,5)] sg'(2)
  show p: "parseInt10 (ws @ sg @ ds @ rest) = fl (of_int (decimalValue ds))"
    by (simp add: mathInt_decimalValue)
  have nn: "0 \<le> decimalValue ds"
    using mathInt_nonneg [OF assms(4)] by (simp add: mathInt_decimalValue)
  show "parseInt10 (ws @ sg @ ds @ rest) = Fin (of_int (decimalValue ds))"
    if "decimalValue ds \<le> 2 ^ 53"
  proof -
    from that nn have "\<bar>decimalValue ds\<bar> \<le> 2 ^ 53" by simp
    from fl_of_int [OF this] p show ?thesis by simp
  qed
  show "parseInt10 (ws @ sg @ ds @ rest) = PInf" if "2 ^ 1024 \<le> decimalValue ds"
  proof -
    from that have "real_of_int (2 ^ 1024) \<le> real_of_int (decimalValue ds)"
      by (simp only: of_int_le_iff)
    then have "(2::real) powi 1024 \<le> real_of_int (decimalValue ds)" by simp
    from fl_overflow [OF this] p show ?thesis by simp
  qed
  show "parse_segment (label @ CHR ''_'' # ws @ sg @ ds @ rest) =
             Some \<lparr>name = label, weight = fl (of_int (decimalValue ds))\<rparr>"
    if "CHR ''_'' \<notin> set label" "CHR ''_'' \<notin> set rest" "0 < decimalValue ds"
  proof -
    have "CHR ''_'' \<notin> set ds" using assms(4) isDigit_not_sep by blast
    moreover have "CHR ''_'' \<notin> set ws" using assms(1) isWhiteSpace_not_sep by blast
    moreover have "CHR ''_'' \<notin> set sg" using assms(2) by auto
    ultimately have nosep: "CHR ''_'' \<notin> set (ws @ sg @ ds @ rest)" using that(2) by simp
    from that(3) have "1 \<le> decimalValue ds" by simp
    from accepted_weight [OF this]
    have "\<not> isNaN (parseInt10 (ws @ sg @ ds @ rest))"
      "\<not> num_le (parseInt10 (ws @ sg @ ds @ rest)) (Fin 0)"
      unfolding p by simp_all
    from parse_segment_accept [OF that(1) nosep this] show ?thesis unfolding p .
  qed
qed

section \<open>The claims\<close>

subsection \<open>C1\<close>

text \<open>
  C1.  The winning number is the product of the draw and the total rounded to a
  double, and the loop compares the rounded number.  For \<open>/a_2/b_1\<close> and the
  draw \<open>6004799503160661 / 2\<^sup>5\<^sup>3\<close>, a double in \<open>[0, 1)\<close>, the exact product
  is below the cumulative weight 2 of \<open>a\<close>, but it rounds to 2, so the loop
  passes \<open>a\<close> and returns \<open>b\<close>.
\<close>

theorem rounded_product_picks_next:
  "isDouble (6004799503160661 / 2 ^ 53) \<and>
   (0::real) \<le> 6004799503160661 / 2 ^ 53 \<and> (6004799503160661::real) / 2 ^ 53 < 1 \<and>
   parseInput ''/a_2/b_1'' =
     Inr ([\<lparr>name = ''a'', weight = Fin 2\<rparr>, \<lparr>name = ''b'', weight = Fin 1\<rparr>], Fin 3) \<and>
   (6004799503160661::real) / 2 ^ 53 * 3 < 2 \<and>
   num_mul (Fin (6004799503160661 / 2 ^ 53)) (Fin 3) = Fin 2 \<and>
   selectWinner [\<lparr>name = ''a'', weight = Fin 2\<rparr>, \<lparr>name = ''b'', weight = Fin 1\<rparr>] (Fin 3)
     (6004799503160661 / 2 ^ 53) = Some ''b'' \<and>
   handler ''/a_2/b_1'' (6004799503160661 / 2 ^ 53) =
     \<lparr>status = 200, body = [(''winner'', JString ''b'')]\<rparr>"
proof -
  have d: "isDouble (6004799503160661 / 2 ^ 53)"
    unfolding isDouble_def by (rule draw_isDouble)
  have p: "parseInput ''/a_2/b_1'' =
     Inr ([\<lparr>name = ''a'', weight = Fin 2\<rparr>, \<lparr>name = ''b'', weight = Fin 1\<rparr>], Fin 3)"
    by (simp add: parseInput_def segments_of_def path_of_def init_state_def parse_segment_def
        parseInt10_def mathInt_def isWhiteSpace_def isDigit_def digitVal_def fl_numeral)
  have m: "num_mul (Fin (6004799503160661 / 2 ^ 53)) (Fin 3) = Fin 2"
    using fl_tie_up by simp
  have s: "selectWinner [\<lparr>name = ''a'', weight = Fin 2\<rparr>, \<lparr>name = ''b'', weight = Fin 1\<rparr>] (Fin 3)
     (6004799503160661 / 2 ^ 53) = Some ''b''"
    unfolding selectWinner_def m by (simp add: fl_numeral)
  have h: "handler ''/a_2/b_1'' (6004799503160661 / 2 ^ 53) =
     \<lparr>status = 200, body = [(''winner'', JString ''b'')]\<rparr>"
    unfolding handler_def p using s by (simp add: winner_response_def)
  have a: "(0::real) \<le> 6004799503160661 / 2 ^ 53" "(6004799503160661::real) / 2 ^ 53 < 1"
    "(6004799503160661::real) / 2 ^ 53 * 3 < 2"
    by simp_all
  from d a p m s h show ?thesis by (intro conjI)
qed

text \<open>
  C1, as the code has it.  Let the prizes be a non-empty list of positive integer
  weights whose sum \<open>T\<close> is at most \<open>2\<^sup>5\<^sup>3\<close>, so that the total and every cumulative
  weight \<open>C\<^sub>i\<close> are computed exactly.  For every draw \<open>r\<close> that is a double in
  \<open>[0, 1)\<close> the winning number is \<open>w\<close>, the product \<open>r * T\<close> rounded to a double,
  and \<open>0 \<le> w < T\<close>.  The loop breaks at some position \<open>i\<close> and returns the name
  found there; \<open>i\<close> is the first position with \<open>w < C\<^sub>i\<^sub>+\<^sub>1\<close>, and position \<open>i\<close> is
  selected exactly when \<open>C\<^sub>i \<le> w < C\<^sub>i\<^sub>+\<^sub>1\<close>, an interval of width \<open>weight\<^sub>i\<close>.
\<close>

theorem selectWinner_rounded:
  assumes "ps \<noteq> []" "\<forall>p\<in>set ps. posInt (weight p)"
    "cumulative ps (length ps) \<le> 2 ^ 53" "isDouble r" "0 \<le> r" "r < 1"
  shows "\<exists>w. fl (r * cumulative ps (length ps)) = Fin w \<and>
           num_mul (Fin r) (Fin (cumulative ps (length ps))) = Fin w \<and>
           0 \<le> w \<and> w < cumulative ps (length ps) \<and>
           (\<exists>i<length ps.
              selectedIndex ps (Fin (cumulative ps (length ps))) r = Some i \<and>
              selectWinner ps (Fin (cumulative ps (length ps))) r = Some (name (ps ! i)) \<and>
              w < cumulative ps (Suc i) \<and>
              (\<forall>j<i. \<not> w < cumulative ps (Suc j))) \<and>
           (\<forall>i<length ps.
              (selectedIndex ps (Fin (cumulative ps (length ps))) r = Some i \<longleftrightarrow>
                 cumulative ps i \<le> w \<and> w < cumulative ps (Suc i)) \<and>
              cumulative ps (Suc i) - cumulative ps i = weightVal (weight (ps ! i)))"
proof -
  let ?T = "cumulative ps (length ps)"
  from winning_number_small [OF assms]
  obtain w where w: "num_mul (Fin r) (Fin ?T) = Fin w" "fl (r * ?T) = Fin w" "0 \<le> w" "w < ?T"
    by blast
  note sel = selectedIndex_small [OF assms(2,3) w(1)]
  from first_below_exists [OF assms(1) w(4)]
  obtain i where i: "i < length ps" "w < cumulative ps (Suc i)"
    "\<forall>j<i. \<not> w < cumulative ps (Suc j)" by blast
  then have si: "selectedIndex ps (Fin ?T) r = Some i" using sel [of i] by simp
  then have sw: "selectWinner ps (Fin ?T) r = Some (name (ps ! i))"
    by (simp add: selectWinner_index)
  have ex: "\<exists>i<length ps.
              selectedIndex ps (Fin ?T) r = Some i \<and>
              selectWinner ps (Fin ?T) r = Some (name (ps ! i)) \<and>
              w < cumulative ps (Suc i) \<and>
              (\<forall>j<i. \<not> w < cumulative ps (Suc j))"
    using i si sw by blast
  have iff: "selectedIndex ps (Fin ?T) r = Some k \<longleftrightarrow>
                 cumulative ps k \<le> w \<and> w < cumulative ps (Suc k)"
    if "k < length ps" for k
    using sel [of k] first_below_interval [OF assms(2) w(3), of k] that by blast
  have width: "cumulative ps (Suc k) - cumulative ps k = weightVal (weight (ps ! k))"
    if "k < length ps" for k
    using that by (simp add: cumulative_Suc)
  have all: "\<forall>i<length ps.
              (selectedIndex ps (Fin ?T) r = Some i \<longleftrightarrow>
                 cumulative ps i \<le> w \<and> w < cumulative ps (Suc i)) \<and>
              cumulative ps (Suc i) - cumulative ps i = weightVal (weight (ps ! i))"
    using iff width by simp
  from w ex all show ?thesis by (intro exI [of _ w] conjI)
qed

theorem selectWinner_rounded_witness:
  "selectedIndex [\<lparr>name = ''a'', weight = Fin 50\<rparr>, \<lparr>name = ''b'', weight = Fin 30\<rparr>,
                  \<lparr>name = ''c'', weight = Fin 20\<rparr>] (Fin 100) (3 / 4) = Some (Suc 0) \<and>
   selectWinner [\<lparr>name = ''a'', weight = Fin 50\<rparr>, \<lparr>name = ''b'', weight = Fin 30\<rparr>,
                 \<lparr>name = ''c'', weight = Fin 20\<rparr>] (Fin 100) (3 / 4) = Some ''b'' \<and>
   fl (3 / 4 * 100) = Fin 75"
proof -
  let ?ps = "[\<lparr>name = ''a'', weight = Fin 50\<rparr>, \<lparr>name = ''b'', weight = Fin 30\<rparr>,
              \<lparr>name = ''c'', weight = Fin 20\<rparr>]"
  have ne: "?ps \<noteq> []" by simp
  have pos: "\<forall>p\<in>set ?ps. posInt (weight p)" by simp
  have T: "cumulative ?ps (length ?ps) = 100" by (simp add: cumulative_def)
  have small: "cumulative ?ps (length ?ps) \<le> 2 ^ 53" unfolding T by simp
  have d: "isDouble (3 / 4)"
    unfolding isDouble_def using fl_at [of "- 1" "3 / 4"]
    by (simp add: roundHalfEven_def power_int_minus)
  have r: "(0::real) \<le> 3 / 4" "(3::real) / 4 < 1" by simp_all
  have f: "fl (3 / 4 * 100) = Fin 75" by (simp add: fl_numeral)
  have c: "cumulative ?ps (Suc 0) = 50" "cumulative ?ps (Suc (Suc 0)) = 80"
    by (simp_all add: cumulative_def)
  from selectWinner_rounded [OF ne pos small d r]
  obtain w where w: "fl (3 / 4 * cumulative ?ps (length ?ps)) = Fin w"
    and all: "\<forall>i<length ?ps.
              (selectedIndex ?ps (Fin (cumulative ?ps (length ?ps))) (3 / 4) = Some i \<longleftrightarrow>
                 cumulative ?ps i \<le> w \<and> w < cumulative ?ps (Suc i)) \<and>
              cumulative ?ps (Suc i) - cumulative ?ps i = weightVal (weight (?ps ! i))"
    by blast
  from w f have w75: "w = 75" unfolding T by simp
  have "Suc 0 < length ?ps" by simp
  with all have "selectedIndex ?ps (Fin (cumulative ?ps (length ?ps))) (3 / 4) = Some (Suc 0) \<longleftrightarrow>
                 cumulative ?ps (Suc 0) \<le> w \<and> w < cumulative ?ps (Suc (Suc 0))"
    by blast
  then have si: "selectedIndex ?ps (Fin 100) (3 / 4) = Some (Suc 0)"
    unfolding T c w75 by simp
  then have sw: "selectWinner ?ps (Fin 100) (3 / 4) = Some ''b''"
    by (simp add: selectWinner_index)
  from si sw f show ?thesis by (intro conjI)
qed

subsection \<open>C2\<close>

text \<open>
  C2.  The request \<open>/a_\<close> followed by 309 nines is valid for the handler: the
  weight parses to \<open>Infinity\<close>, which is neither \<open>NaN\<close> nor \<open>\<le> 0\<close>, and the total is
  \<open>Infinity\<close>.  For every draw \<open>r \<ge> 0\<close> the winning number is \<open>Infinity\<close> (or \<open>NaN\<close>
  when \<open>r = 0\<close>), the comparison with the cumulative weight \<open>Infinity\<close> is false,
  the loop runs through the list, and the answer is 200 with \<open>winner: null\<close>.  No
  fallback to the last prize exists.
\<close>

theorem handler_null_winner:
  assumes "0 \<le> r"
  shows "selectWinner [\<lparr>name = ''a'', weight = PInf\<rparr>] PInf r = None \<and>
         handler (''/a_'' @ replicate 309 CHR ''9'') r =
           \<lparr>status = 200, body = [(''winner'', JNull)]\<rparr>"
proof -
  have "num_mul (Fin r) PInf = NaN \<or> num_mul (Fin r) PInf = PInf"
    using assms by (cases "r = 0") auto
  then have sel: "selectWinner [\<lparr>name = ''a'', weight = PInf\<rparr>] PInf r = None"
  proof
    assume a: "num_mul (Fin r) PInf = NaN"
    show ?thesis unfolding selectWinner_def a by simp
  next
    assume a: "num_mul (Fin r) PInf = PInf"
    show ?thesis unfolding selectWinner_def a by simp
  qed
  then show ?thesis
    by (simp add: handler_def parseInput_nines [simplified] winner_response_def)
qed

theorem handler_null_winner_witness:
  "(0::real) \<le> 1 / 2 \<and>
   handler (''/a_'' @ replicate 309 CHR ''9'') (1 / 2) =
     \<lparr>status = 200, body = [(''winner'', JNull)]\<rparr>"
  using handler_null_winner [of "1 / 2"] by simp

subsection \<open>C3\<close>

text \<open>
  C3.  \<open>/a_0\<close> has one segment, which splits into exactly the two parts \<open>a\<close> and
  \<open>0\<close>, and the request still fails with \<open>InvalidFormat\<close>: a segment that does
  not split into two parts is not the only cause of that error.  And the split
  is at every \<open>_\<close>, not at the first one: \<open>a_50_x\<close> gives three parts and the
  request fails, although the text before its first \<open>_\<close> is \<open>a\<close> and the text
  after it, \<open>50_x\<close>, parses to 50.
\<close>

theorem two_parts_still_invalid:
  "segments_of ''/a_0'' = [''a_0''] \<and>
   split_js CHR ''_'' ''a_0'' = [''a'', ''0''] \<and>
   parseInput ''/a_0'' = Inl InvalidFormat \<and>
   split_js CHR ''_'' ''a_50_x'' = [''a'', ''50'', ''x''] \<and>
   takeWhile (\<lambda>x. x \<noteq> CHR ''_'') ''a_50_x'' = ''a'' \<and>
   tl (dropWhile (\<lambda>x. x \<noteq> CHR ''_'') ''a_50_x'') = ''50_x'' \<and>
   parseInt10 ''50_x'' = Fin 50 \<and>
   parseInput ''/a_50_x'' = Inl InvalidFormat"
  by (simp add: parseInput_def segments_of_def path_of_def init_state_def parse_segment_def
      parseInt10_def mathInt_def isWhiteSpace_def isDigit_def digitVal_def fl_numeral)

text \<open>
  C3, as the code has it.  A segment is split at every \<open>_\<close>, and it gives exactly
  two parts, the text before the \<open>_\<close> and the text after it, exactly when it holds
  one \<open>_\<close>.  A request with a segment that does not split into two parts fails
  with \<open>InvalidFormat\<close>; a request fails with \<open>InvalidFormat\<close> exactly when some
  segment does not split into two parts or has a second part that parses to
  \<open>NaN\<close> or to a value \<open>\<le> 0\<close>.
\<close>

theorem split_two_parts:
  "(length (split_js CHR ''_'' s) = 2 \<longleftrightarrow> count_list s CHR ''_'' = 1) \<and>
   (length (split_js CHR ''_'' s) = 2 \<longrightarrow>
      split_js CHR ''_'' s =
        [takeWhile (\<lambda>x. x \<noteq> CHR ''_'') s, tl (dropWhile (\<lambda>x. x \<noteq> CHR ''_'') s)]) \<and>
   ((\<exists>s\<in>set (segments_of url). length (split_js CHR ''_'' s) \<noteq> 2) \<longrightarrow>
      parseInput url = Inl InvalidFormat \<and> handler url r = invalid_format_response) \<and>
   (parseInput url = Inl InvalidFormat \<longleftrightarrow>
      (\<exists>s\<in>set (segments_of url).
         length (split_js CHR ''_'' s) \<noteq> 2 \<or>
         isNaN (parseInt10 (split_js CHR ''_'' s ! 1)) \<or>
         num_le (parseInt10 (split_js CHR ''_'' s ! 1)) (Fin 0)))"
proof -
  have a: "length (split_js CHR ''_'' s) = 2 \<longleftrightarrow> count_list s CHR ''_'' = 1"
    by (rule length_split_js_two_iff)
  have b: "split_js CHR ''_'' s =
        [takeWhile (\<lambda>x. x \<noteq> CHR ''_'') s, tl (dropWhile (\<lambda>x. x \<noteq> CHR ''_'') s)]"
    if "length (split_js CHR ''_'' s) = 2"
    using that by (rule split_js_two(1))
  have d: "parseInput url = Inl InvalidFormat \<longleftrightarrow>
      (\<exists>s\<in>set (segments_of url).
         length (split_js CHR ''_'' s) \<noteq> 2 \<or>
         isNaN (parseInt10 (split_js CHR ''_'' s ! 1)) \<or>
         num_le (parseInt10 (split_js CHR ''_'' s ! 1)) (Fin 0))"
    unfolding parseInput_Invalid_iff parse_segment_None_iff by blast
  have c: "parseInput url = Inl InvalidFormat \<and> handler url r = invalid_format_response"
    if "\<exists>s\<in>set (segments_of url). length (split_js CHR ''_'' s) \<noteq> 2"
  proof -
    from that d have "parseInput url = Inl InvalidFormat" by blast
    then show ?thesis by (simp add: handler_invalid_iff)
  qed
  from a b c d show ?thesis by blast
qed

theorem split_two_parts_witness:
  "count_list ''a_50_x'' CHR ''_'' = 2 \<and> length (split_js CHR ''_'' ''a_50_x'') = 3 \<and>
   parseInput ''/a_50_x'' = Inl InvalidFormat \<and>
   handler ''/a_50_x'' (1/2) = invalid_format_response \<and>
   split_js CHR ''_'' ''a_50'' = [''a'', ''50'']"
proof -
  have segs: "segments_of ''/a_50_x'' = [''a_50_x'']"
    by (simp add: segments_of_def path_of_def)
  have len: "length (split_js CHR ''_'' ''a_50_x'') = 3" "length (split_js CHR ''_'' ''a_50'') = 2"
    by simp_all
  have ex: "\<exists>s\<in>set (segments_of ''/a_50_x''). length (split_js CHR ''_'' s) \<noteq> 2"
    using segs by simp
  from split_two_parts [of "''a_50''" "''/a_50_x''" "1/2"] ex len
  have "parseInput ''/a_50_x'' = Inl InvalidFormat \<and>
      handler ''/a_50_x'' (1/2) = invalid_format_response \<and>
      split_js CHR ''_'' ''a_50'' = [''a'', ''50'']"
    by simp
  then show ?thesis by simp
qed

subsection \<open>C4\<close>

text \<open>
  C4.  The weight string \<open>9007199254740993abc\<close> starts with the digits of
  \<open>2\<^sup>5\<^sup>3 + 1\<close>, which is not a double; it parses to \<open>2\<^sup>5\<^sup>3\<close>, not to the value of
  its leading digits, and the segment is accepted with that weight.
\<close>

theorem parseInt10_rounds:
  "decimalValue ''9007199254740993'' = 9007199254740993 \<and>
   parseInt10 ''9007199254740993abc'' = Fin 9007199254740992 \<and>
   parse_segment ''a_9007199254740993abc'' =
     Some \<lparr>name = ''a'', weight = Fin 9007199254740992\<rparr>"
  by (simp add: mathInt_decimalValue [symmetric] parse_segment_def
      parseInt10_def mathInt_def isWhiteSpace_def isDigit_def digitVal_def fl_tie_even)

text \<open>
  C4, as the code has it.  A weight string that starts with decimal digits and
  goes on with a character that is not a digit parses to the double nearest the
  value of the leading digits: to that value itself when it is at most \<open>2\<^sup>5\<^sup>3\<close>
  (\<open>50abc\<close> parses as 50), and to \<open>Infinity\<close> when it is \<open>2\<^sup>1\<^sup>0\<^sup>2\<^sup>4\<close> or more.  A
  segment with such a weight string and a positive value is accepted with the
  parsed weight.
\<close>

theorem parseInt10_trailing_garbage:
  assumes "ds \<noteq> []" "\<forall>c\<in>set ds. isDigit c" "rest = [] \<or> \<not> isDigit (hd rest)"
  shows "parseInt10 (ds @ rest) = fl (of_int (decimalValue ds)) \<and>
         (decimalValue ds \<le> 2 ^ 53 \<longrightarrow>
            parseInt10 (ds @ rest) = Fin (of_int (decimalValue ds))) \<and>
         (2 ^ 1024 \<le> decimalValue ds \<longrightarrow> parseInt10 (ds @ rest) = PInf) \<and>
         (CHR ''_'' \<notin> set label \<and> CHR ''_'' \<notin> set rest \<and> 0 < decimalValue ds \<longrightarrow>
            parse_segment (label @ CHR ''_'' # ds @ rest) =
              Some \<lparr>name = label, weight = fl (of_int (decimalValue ds))\<rparr>)"
proof -
  have ws: "\<forall>c\<in>set []. isWhiteSpace c" and sg: "[] = [] \<or> [] = ''+''" by simp_all
  note v = parseInt10_value [OF ws sg assms, unfolded append_Nil]
  from v(1) v(2) v(3) v(4) [of label] show ?thesis by blast
qed

theorem parseInt10_trailing_garbage_witness:
  "parseInt10 ''50abc'' = Fin 50 \<and>
   parse_segment ''a_50abc'' = Some \<lparr>name = ''a'', weight = Fin 50\<rparr>"
proof -
  have dig: "\<forall>c\<in>set ''50''. isDigit c" by (simp add: isDigit_def)
  have rest: "''abc'' = [] \<or> \<not> isDigit (hd ''abc'')" by (simp add: isDigit_def)
  have val: "decimalValue ''50'' = 50"
    by (simp add: mathInt_decimalValue [symmetric] mathInt_def digitVal_def)
  from parseInt10_trailing_garbage [of "''50''" "''abc''" "''a''"] dig rest val
  show ?thesis by (simp add: fl_numeral)
qed

subsection \<open>C5\<close>

text \<open>
  C5.  A segment that splits into two parts but whose weight string parses to
  \<open>NaN\<close> or to a value \<open>\<le> 0\<close> makes the parse fail with \<open>InvalidFormat\<close>, and when
  the parse succeeds the list is not empty and every weight is greater than 0.
  But the weight check of line 46 lets \<open>Infinity\<close> through: the request \<open>/a_\<close>
  followed by 309 nines parses to one prize of weight \<open>Infinity\<close> with the total
  \<open>Infinity\<close>, and \<open>Infinity\<close> is not a positive integer.
\<close>

theorem infinite_weight_validated:
  "((\<exists>s\<in>set (segments_of url). length (split_js CHR ''_'' s) = 2 \<and>
        (isNaN (parseInt10 (split_js CHR ''_'' s ! 1)) \<or>
         num_le (parseInt10 (split_js CHR ''_'' s ! 1)) (Fin 0))) \<longrightarrow>
      parseInput url = Inl InvalidFormat) \<and>
   (parseInput url = Inr (ps, tw) \<longrightarrow>
      ps \<noteq> [] \<and> (\<forall>p\<in>set ps. num_less (Fin 0) (weight p))) \<and>
   parseInt10 (replicate 309 CHR ''9'') = PInf \<and>
   \<not> isNaN PInf \<and> \<not> num_le PInf (Fin 0) \<and>
   parseInput (''/a_'' @ replicate 309 CHR ''9'') = Inr ([\<lparr>name = ''a'', weight = PInf\<rparr>], PInf) \<and>
   \<not> posInt PInf"
proof -
  have a: "parseInput url = Inl InvalidFormat"
    if "\<exists>s\<in>set (segments_of url). length (split_js CHR ''_'' s) = 2 \<and>
        (isNaN (parseInt10 (split_js CHR ''_'' s ! 1)) \<or>
         num_le (parseInt10 (split_js CHR ''_'' s ! 1)) (Fin 0))"
  proof -
    from that have "\<exists>s\<in>set (segments_of url). parse_segment s = None"
      unfolding parse_segment_None_iff by blast
    then show ?thesis by (simp add: parseInput_Invalid_iff)
  qed
  have b: "ps \<noteq> [] \<and> (\<forall>p\<in>set ps. num_less (Fin 0) (weight p))"
    if "parseInput url = Inr (ps, tw)"
  proof -
    from that have ne: "segments_of url \<noteq> []"
      and val: "\<forall>s\<in>set (segments_of url). parse_segment s \<noteq> None"
      and ps: "ps = map (\<lambda>s. the (parse_segment s)) (segments_of url)"
      by (simp_all add: parseInput_Inr_iff)
    have pos: "num_less (Fin 0) (weight p)" if "p \<in> set ps" for p
    proof -
      from that ps obtain s where s: "s \<in> set (segments_of url)" "p = the (parse_segment s)"
        by auto
      with val obtain q where q: "parse_segment s = Some q" by auto
      with s have pq: "p = q" by simp
      from parse_segment_Some [OF q]
      have "\<not> isNaN (weight p)" "\<not> num_le (weight p) (Fin 0)" unfolding pq by blast+
      then show ?thesis by (cases "weight p") auto
    qed
    from ne ps have "ps \<noteq> []" by simp
    with pos show ?thesis by blast
  qed
  have c: "parseInt10 (replicate 309 CHR ''9'') = PInf \<and>
     \<not> isNaN PInf \<and> \<not> num_le PInf (Fin 0) \<and>
     parseInput (''/a_'' @ replicate 309 CHR ''9'') = Inr ([\<lparr>name = ''a'', weight = PInf\<rparr>], PInf) \<and>
     \<not> posInt PInf"
    by (simp add: parseInt10_nines parseInput_nines [simplified])
  from a b c show ?thesis by blast
qed

theorem infinite_weight_validated_witness:
  "parseInput ''/a_0/b_10'' = Inl InvalidFormat \<and>
   parseInput ''/a_x/b_10'' = Inl InvalidFormat \<and>
   parseInput ''/a_5/b_10'' =
     Inr ([\<lparr>name = ''a'', weight = Fin 5\<rparr>, \<lparr>name = ''b'', weight = Fin 10\<rparr>], Fin 15) \<and>
   num_less (Fin 0) (Fin 5) \<and>
   parseInput (''/a_'' @ replicate 309 CHR ''9'') = Inr ([\<lparr>name = ''a'', weight = PInf\<rparr>], PInf)"
proof -
  have s1: "segments_of ''/a_0/b_10'' = [''a_0'', ''b_10'']"
    and s2: "segments_of ''/a_x/b_10'' = [''a_x'', ''b_10'']"
    by (simp_all add: segments_of_def path_of_def)
  have w1: "parseInt10 (split_js CHR ''_'' ''a_0'' ! 1) = Fin 0"
    and w2: "parseInt10 (split_js CHR ''_'' ''a_x'' ! 1) = NaN"
    by (simp_all add: parseInt10_def mathInt_def isWhiteSpace_def isDigit_def digitVal_def)
  have p: "parseInput ''/a_5/b_10'' =
      Inr ([\<lparr>name = ''a'', weight = Fin 5\<rparr>, \<lparr>name = ''b'', weight = Fin 10\<rparr>], Fin 15)"
    by (simp add: parseInput_def segments_of_def path_of_def init_state_def parse_segment_def
        parseInt10_def mathInt_def isWhiteSpace_def isDigit_def digitVal_def fl_numeral)
  from infinite_weight_validated [of "''/a_0/b_10''"] s1 w1
  have 1: "parseInput ''/a_0/b_10'' = Inl InvalidFormat" by simp
  from infinite_weight_validated [of "''/a_x/b_10''"] s2 w2
  have 2: "parseInput ''/a_x/b_10'' = Inl InvalidFormat" by simp
  from infinite_weight_validated [of "''/a_5/b_10''"
      "[\<lparr>name = ''a'', weight = Fin 5\<rparr>, \<lparr>name = ''b'', weight = Fin 10\<rparr>]" "Fin 15"] p
  have 3: "num_less (Fin 0) (Fin 5)" by simp
  from infinite_weight_validated [of "''/''"]
  have 4: "parseInput (''/a_'' @ replicate 309 CHR ''9'') =
      Inr ([\<lparr>name = ''a'', weight = PInf\<rparr>], PInf)" by blast
  from 1 2 3 4 p show ?thesis by (intro conjI)
qed

subsection \<open>C6\<close>

text \<open>
  C6.  For every raw URL the handler keeps the part before the first \<open>?\<close>, splits
  it on \<open>/\<close>, and drops the empty pieces and the pieces \<open>api\<close> and \<open>picker\<close>.  It
  answers with status 400 and the body \<open>{error: "No prizes provided.", usage: ...}\<close>
  exactly when no segment remains; the empty URL and \<open>/\<close> are such inputs.
\<close>

theorem handler_no_prizes:
  "path_of url = takeWhile (\<lambda>x. x \<noteq> CHR ''?'') url \<and>
   segments_of url =
     filter (\<lambda>s. s \<noteq> [] \<and> s \<noteq> ''api'' \<and> s \<noteq> ''picker'')
       (split_js CHR ''/'' (takeWhile (\<lambda>x. x \<noteq> CHR ''?'') url)) \<and>
   (handler url r =
      \<lparr>status = 400,
       body = [(''error'', JString ''No prizes provided.''),
               (''usage'', JString ''Append prizes and their percentages to the URL path, e.g., /prizeA_50/prizeB_30/prizeC_20'')]\<rparr>
    \<longleftrightarrow> segments_of url = []) \<and>
   (parseInput url = Inl NoPrizesProvided \<longleftrightarrow> segments_of url = [])"
proof -
  have "handler url r = no_prizes_response \<longleftrightarrow> segments_of url = []"
    by (simp add: handler_empty_iff parseInput_NoPrizes_iff)
  then show ?thesis
    by (simp add: path_of_eq segments_of_def parseInput_NoPrizes_iff
        no_prizes_response_def del: One_nat_def)
qed

theorem handler_no_prizes_witness:
  "handler '''' (1/2) = no_prizes_response \<and> handler ''/'' (1/2) = no_prizes_response \<and>
   handler ''/api/picker//?/a_1'' (1/2) = no_prizes_response \<and>
   handler ''/a_1'' (1/2) \<noteq> no_prizes_response"
proof -
  have 1: "segments_of '''' = []" by (simp add: segments_of_def path_of_def)
  have 2: "segments_of ''/'' = []" by (simp add: segments_of_def path_of_def)
  have 3: "segments_of ''/api/picker//?/a_1'' = []" by (simp add: segments_of_def path_of_def)
  have 4: "segments_of ''/a_1'' \<noteq> []" by (simp add: segments_of_def path_of_def)
  show ?thesis
    using handler_no_prizes [of "''''" "1/2"] handler_no_prizes [of "''/''" "1/2"]
      handler_no_prizes [of "''/api/picker//?/a_1''" "1/2"] handler_no_prizes [of "''/a_1''" "1/2"]
      1 2 3 4
    by (simp add: no_prizes_response_def)
qed

subsection \<open>C7\<close>

text \<open>
  C7.  Validation is all or nothing.  A segment is invalid when the loop body
  breaks on it (\<open>parse_segment\<close> gives \<open>None\<close>).  If some segment is invalid the
  handler answers with status 400 and a body of exactly the two fields \<open>error\<close>
  (\<open>"Invalid format detected."\<close>) and \<open>details\<close>, with no \<open>winner\<close> field; and the
  loop stops at the first invalid segment, whatever follows it.
\<close>

theorem invalid_segment_aborts:
  "((\<exists>s\<in>set (segments_of url). parse_segment s = None) \<longrightarrow>
      parseInput url = Inl InvalidFormat \<and>
      handler url r =
        \<lparr>status = 400,
         body = [(''error'', JString ''Invalid format detected.''),
                 (''details'', JString ''Segments must follow the format: item_percentage (e.g., /apple_40/banana_60). Percentages must be positive numbers.'')]\<rparr> \<and>
      map fst (body (handler url r)) = [''error'', ''details'']) \<and>
   ((\<forall>s\<in>set pre. parse_segment s \<noteq> None) \<and> parse_segment bad = None \<longrightarrow>
      parse_loop (pre @ bad # post) init_state = parse_loop (pre @ [bad]) init_state \<and>
      \<not> isValid (parse_loop (pre @ bad # post) init_state))"
proof -
  have a: "parseInput url = Inl InvalidFormat \<and> handler url r = invalid_format_response"
    if "\<exists>s\<in>set (segments_of url). parse_segment s = None"
    using that by (simp add: handler_invalid_iff parseInput_Invalid_iff)
  have b: "parse_loop (pre @ bad # post) init_state = parse_loop (pre @ [bad]) init_state \<and>
      \<not> isValid (parse_loop (pre @ bad # post) init_state)"
    if "\<forall>s\<in>set pre. parse_segment s \<noteq> None" "parse_segment bad = None"
    using that by (simp add: parse_loop_first_invalid)
  from a b show ?thesis
    by (auto simp: invalid_format_response_def)
qed

theorem invalid_segment_aborts_witness:
  "handler ''/a_50/b/c_20'' (1/2) =
     \<lparr>status = 400,
      body = [(''error'', JString ''Invalid format detected.''),
              (''details'', JString ''Segments must follow the format: item_percentage (e.g., /apple_40/banana_60). Percentages must be positive numbers.'')]\<rparr> \<and>
   parse_loop [''a_50'', ''b'', ''c_20''] init_state =
     \<lparr>totalWeight = Fin 50, prizes = [\<lparr>name = ''a'', weight = Fin 50\<rparr>], isValid = False\<rparr>"
proof -
  have segs: "segments_of ''/a_50/b/c_20'' = [''a_50'', ''b'', ''c_20'']"
    by (simp add: segments_of_def path_of_def)
  have bad: "parse_segment ''b'' = None"
    by (simp add: parse_segment_def)
  have good: "parse_segment ''a_50'' = Some \<lparr>name = ''a'', weight = Fin 50\<rparr>"
    by (simp add: parse_segment_def parseInt10_def mathInt_def isWhiteSpace_def isDigit_def digitVal_def fl_numeral)
  have ex: "\<exists>s\<in>set (segments_of ''/a_50/b/c_20''). parse_segment s = None"
    using segs bad by simp
  have pre: "\<forall>s\<in>set [''a_50'']. parse_segment s \<noteq> None"
    using good by simp
  have stop: "parse_loop [''a_50'', ''b''] init_state =
      \<lparr>totalWeight = Fin 50, prizes = [\<lparr>name = ''a'', weight = Fin 50\<rparr>], isValid = False\<rparr>"
    using good bad by (simp add: init_state_def fl_numeral)
  from invalid_segment_aborts [where url = "''/a_50/b/c_20''" and pre = "[''a_50'']"
      and bad = "''b''" and post = "[''c_20'']" and r = "1/2"]
    ex pre bad stop
  show ?thesis by simp
qed

subsection \<open>C8\<close>

text \<open>
  C8.  The handler never looks at the name it cuts from a segment, so a name can
  be empty: \<open>/_50\<close> is a valid request whose only prize has the empty name, and
  the empty name wins.
\<close>

theorem empty_label_accepted:
  "parseInput ''/_50'' = Inr ([\<lparr>name = '''', weight = Fin 50\<rparr>], Fin 50) \<and>
   handler ''/_50'' (1 / 2) = \<lparr>status = 200, body = [(''winner'', JString '''')]\<rparr>"
proof -
  have p: "parseInput ''/_50'' = Inr ([\<lparr>name = '''', weight = Fin 50\<rparr>], Fin 50)"
    by (simp add: parseInput_def segments_of_def path_of_def init_state_def parse_segment_def
        parseInt10_def mathInt_def isWhiteSpace_def isDigit_def digitVal_def fl_numeral)
  have "fl (1 / 2 * 50) = Fin 25" by (simp add: fl_numeral)
  then have "selectWinner [\<lparr>name = '''', weight = Fin 50\<rparr>] (Fin 50) (1 / 2) = Some ''''"
    by (simp add: selectWinner_def fl_numeral)
  with p show ?thesis by (simp add: handler_def winner_response_def)
qed

text \<open>
  C8, as the code has it.  The name of every prize of a successful parse is free
  of the characters \<open>/\<close>, \<open>_\<close> and \<open>?\<close>; it may be empty: \<open>/_\<close> followed by
  digits of a positive value of at most \<open>2\<^sup>5\<^sup>3\<close> is a valid request with one prize
  of empty name.
\<close>

theorem labels_separator_free:
  "(parseInput url = Inr (ps, tw) \<longrightarrow>
      (\<forall>p\<in>set ps. CHR ''/'' \<notin> set (name p) \<and> CHR ''_'' \<notin> set (name p) \<and>
                   CHR ''?'' \<notin> set (name p))) \<and>
   (ds \<noteq> [] \<and> (\<forall>c\<in>set ds. isDigit c) \<and> 0 < decimalValue ds \<and> decimalValue ds \<le> 2 ^ 53 \<longrightarrow>
      parseInput (''/_'' @ ds) =
        Inr ([\<lparr>name = [], weight = Fin (of_int (decimalValue ds))\<rparr>],
             Fin (of_int (decimalValue ds))))"
proof -
  have a: "CHR ''/'' \<notin> set (name p) \<and> CHR ''_'' \<notin> set (name p) \<and> CHR ''?'' \<notin> set (name p)"
    if ok: "parseInput url = Inr (ps, tw)" and p: "p \<in> set ps" for p
  proof -
    from ok have val: "\<forall>s\<in>set (segments_of url). parse_segment s \<noteq> None"
      and ps: "ps = map (\<lambda>s. the (parse_segment s)) (segments_of url)"
      by (simp_all add: parseInput_Inr_iff)
    from p ps obtain s where s: "s \<in> set (segments_of url)" "p = the (parse_segment s)"
      by auto
    with val obtain q where q: "parse_segment s = Some q" by auto
    with s have nm: "name p = takeWhile (\<lambda>x. x \<noteq> CHR ''_'') s"
      using parse_segment_Some [OF q] by simp
    have sub: "set (name p) \<subseteq> set s" unfolding nm by (auto dest: set_takeWhileD)
    have "CHR ''_'' \<notin> set (name p)" unfolding nm by (auto dest: set_takeWhileD)
    with sub segment_chars(2,3) [OF s(1)] show ?thesis by blast
  qed
  have b: "parseInput (''/_'' @ ds) =
        Inr ([\<lparr>name = [], weight = Fin (of_int (decimalValue ds))\<rparr>],
             Fin (of_int (decimalValue ds)))"
    if ds: "ds \<noteq> []" "\<forall>c\<in>set ds. isDigit c" and v: "0 < decimalValue ds"
      "decimalValue ds \<le> 2 ^ 53"
  proof -
    have nosep: "CHR ''_'' \<notin> set ds" "CHR ''/'' \<notin> set ds" "CHR ''?'' \<notin> set ds"
      using ds(2) isDigit_not_sep by blast+
    have segs: "segments_of (CHR ''/'' # CHR ''_'' # ds) = [CHR ''_'' # ds]"
      using nosep by (intro segments_of_single) auto
    have ws: "\<forall>c\<in>set []. isWhiteSpace c" and sg: "[] = [] \<or> [] = ''+''"
      and rest: "[] = [] \<or> \<not> isDigit (hd [])" by simp_all
    note pv = parseInt10_value [OF ws sg ds rest, unfolded append_Nil append_Nil2]
    have "\<bar>decimalValue ds\<bar> \<le> 2 ^ 53" using v by simp
    then have ex: "fl (of_int (decimalValue ds)) = Fin (of_int (decimalValue ds))"
      by (rule fl_of_int)
    have "parse_segment ([] @ CHR ''_'' # ds) =
        Some \<lparr>name = [], weight = fl (of_int (decimalValue ds))\<rparr>"
      using nosep(1) v(1) by (intro pv(4)) auto
    then have seg: "parse_segment (CHR ''_'' # ds) =
        Some \<lparr>name = [], weight = Fin (of_int (decimalValue ds))\<rparr>"
      unfolding ex by simp
    have "num_add (Fin 0) (Fin (of_int (decimalValue ds))) = Fin (of_int (decimalValue ds))"
      using ex by simp
    with segs seg show ?thesis by (simp add: parseInput_def init_state_def)
  qed
  from a b show ?thesis by blast
qed

theorem labels_separator_free_witness:
  "parseInput ''/_7'' = Inr ([\<lparr>name = [], weight = Fin 7\<rparr>], Fin 7) \<and>
   parseInput ''/a_50/b_30?x=_/'' =
     Inr ([\<lparr>name = ''a'', weight = Fin 50\<rparr>, \<lparr>name = ''b'', weight = Fin 30\<rparr>], Fin 80) \<and>
   CHR ''/'' \<notin> set ''a'' \<and> CHR ''_'' \<notin> set ''a'' \<and> CHR ''?'' \<notin> set ''a''"
proof -
  have dig: "\<forall>c\<in>set ''7''. isDigit c" by (simp add: isDigit_def)
  have val: "decimalValue ''7'' = 7"
    by (simp add: mathInt_decimalValue [symmetric] mathInt_def digitVal_def)
  have p: "parseInput ''/a_50/b_30?x=_/'' =
      Inr ([\<lparr>name = ''a'', weight = Fin 50\<rparr>, \<lparr>name = ''b'', weight = Fin 30\<rparr>], Fin 80)"
    by (simp add: parseInput_def segments_of_def path_of_def init_state_def parse_segment_def
        parseInt10_def mathInt_def isWhiteSpace_def isDigit_def digitVal_def fl_numeral)
  from labels_separator_free [where ds = "''7''" and url = "''/a_50/b_30?x=_/''"
      and ps = "[\<lparr>name = ''a'', weight = Fin 50\<rparr>, \<lparr>name = ''b'', weight = Fin 30\<rparr>]"
      and tw = "Fin 80"]
    dig val p
  show ?thesis by simp
qed

subsection \<open>C9\<close>

text \<open>
  C9.  The total is a running sum of doubles, not the sum of the weights:
  \<open>/a_9007199254740992/b_1\<close> parses to the weights \<open>2\<^sup>5\<^sup>3\<close> and 1, both exact, and
  its total is \<open>2\<^sup>5\<^sup>3\<close>, not \<open>2\<^sup>5\<^sup>3 + 1\<close>.
\<close>

theorem total_rounds:
  "parseInput ''/a_9007199254740992/b_1'' =
     Inr ([\<lparr>name = ''a'', weight = Fin 9007199254740992\<rparr>, \<lparr>name = ''b'', weight = Fin 1\<rparr>],
          Fin 9007199254740992) \<and>
   sum_list (map (\<lambda>p. weightVal (weight p))
     [\<lparr>name = ''a'', weight = Fin 9007199254740992\<rparr>, \<lparr>name = ''b'', weight = Fin 1\<rparr>])
     = 9007199254740993"
  by (simp add: parseInput_def segments_of_def path_of_def init_state_def parse_segment_def
      parseInt10_def mathInt_def isWhiteSpace_def isDigit_def digitVal_def fl_numeral fl_tie_even)

text \<open>
  C9, as the code has it.  The parse keeps the order of appearance: on success
  the prizes are the segments in order, each with the part before \<open>_\<close> as its
  name and the parsed part after \<open>_\<close> as its weight.  The total is the running
  sum of the weights from left to right, each addition rounded to a double; it
  is the exact sum when the weights are positive integers of sum at most \<open>2\<^sup>5\<^sup>3\<close>.
  \<open>/a_50/b_30/c_20\<close> gives \<open>a\<close>, \<open>b\<close>, \<open>c\<close> with 50, 30, 20 and the total 100.
\<close>

theorem parseInput_order:
  assumes "parseInput url = Inr (ps, tw)"
  shows "map name ps = map (takeWhile (\<lambda>x. x \<noteq> CHR ''_'')) (segments_of url) \<and>
         map weight ps =
           map (\<lambda>s. parseInt10 (tl (dropWhile (\<lambda>x. x \<noteq> CHR ''_'') s))) (segments_of url) \<and>
         tw = foldl num_add (Fin 0) (map weight ps) \<and>
         ((\<forall>p\<in>set ps. posInt (weight p)) \<and>
          sum_list (map (\<lambda>p. weightVal (weight p)) ps) \<le> 2 ^ 53 \<longrightarrow>
            tw = Fin (sum_list (map (\<lambda>p. weightVal (weight p)) ps)))"
proof -
  from assms have val: "\<forall>s\<in>set (segments_of url). parse_segment s \<noteq> None"
    and ps: "ps = map (\<lambda>s. the (parse_segment s)) (segments_of url)"
    and tw: "tw = foldl num_add (Fin 0) (map weight ps)"
    by (simp_all add: parseInput_Inr_iff)
  have "name (the (parse_segment s)) = takeWhile (\<lambda>x. x \<noteq> CHR ''_'') s \<and>
        weight (the (parse_segment s)) = parseInt10 (tl (dropWhile (\<lambda>x. x \<noteq> CHR ''_'') s))"
    if "s \<in> set (segments_of url)" for s
  proof -
    from val that obtain p where p: "parse_segment s = Some p" by auto
    from parse_segment_Some [OF p] p show ?thesis by simp
  qed
  with ps have nw: "map name ps = map (takeWhile (\<lambda>x. x \<noteq> CHR ''_'')) (segments_of url) \<and>
         map weight ps =
           map (\<lambda>s. parseInt10 (tl (dropWhile (\<lambda>x. x \<noteq> CHR ''_'') s))) (segments_of url)"
    by (simp add: comp_def)
  have ex: "tw = Fin (sum_list (map (\<lambda>p. weightVal (weight p)) ps))"
    if "\<forall>p\<in>set ps. posInt (weight p)" "sum_list (map (\<lambda>p. weightVal (weight p)) ps) \<le> 2 ^ 53"
  proof -
    have c: "cumulative ps (length ps) = sum_list (map (\<lambda>p. weightVal (weight p)) ps)"
      by (simp add: cumulative_def)
    from foldl_num_add_exact [OF that(1), of 0] that(2) tw show ?thesis
      by (simp add: c)
  qed
  from nw tw ex show ?thesis by blast
qed

theorem parseInput_order_witness:
  "parseInput ''/a_50/b_30/c_20'' =
     Inr ([\<lparr>name = ''a'', weight = Fin 50\<rparr>, \<lparr>name = ''b'', weight = Fin 30\<rparr>,
           \<lparr>name = ''c'', weight = Fin 20\<rparr>], Fin 100) \<and>
   map name [\<lparr>name = ''a'', weight = Fin 50\<rparr>, \<lparr>name = ''b'', weight = Fin 30\<rparr>,
             \<lparr>name = ''c'', weight = Fin 20\<rparr>] =
     map (takeWhile (\<lambda>x. x \<noteq> CHR ''_'')) (segments_of ''/a_50/b_30/c_20'') \<and>
   Fin 100 = Fin (sum_list (map (\<lambda>p. weightVal (weight p))
     [\<lparr>name = ''a'', weight = Fin 50\<rparr>, \<lparr>name = ''b'', weight = Fin 30\<rparr>,
      \<lparr>name = ''c'', weight = Fin 20\<rparr>]))"
proof -
  let ?ps = "[\<lparr>name = ''a'', weight = Fin 50\<rparr>, \<lparr>name = ''b'', weight = Fin 30\<rparr>,
              \<lparr>name = ''c'', weight = Fin 20\<rparr>]"
  have p: "parseInput ''/a_50/b_30/c_20'' = Inr (?ps, Fin 100)"
    by (simp add: parseInput_def segments_of_def path_of_def init_state_def parse_segment_def
        parseInt10_def mathInt_def isWhiteSpace_def isDigit_def digitVal_def fl_numeral)
  have pos: "\<forall>p\<in>set ?ps. posInt (weight p)" by simp
  have small: "sum_list (map (\<lambda>p. weightVal (weight p)) ?ps) \<le> 2 ^ 53" by simp
  from parseInput_order [OF p] pos small
  have "map name ?ps = map (takeWhile (\<lambda>x. x \<noteq> CHR ''_'')) (segments_of ''/a_50/b_30/c_20'')"
    and "Fin 100 = Fin (sum_list (map (\<lambda>p. weightVal (weight p)) ?ps))"
    by blast+
  with p show ?thesis by (intro conjI)
qed

subsection \<open>C10\<close>



end
